theory Spec2Isabelle
  imports Main
begin

section \<open>The parser graph of packrattle (src/parser.ts)\<close>

text \<open>
  The TypeScript source keeps \<^verbatim>\<open>Parser\<close> objects on the JavaScript heap and mutates them
  while resolving; two module-level counters (\<^verbatim>\<open>ParserId\<close>, \<^verbatim>\<open>LazyId\<close>) and the
  module-level table \<^verbatim>\<open>__cache\<close> are shared by every call.  The embedding makes this
  explicit: a \<open>state\<close> holds the store of parser objects (addressed by allocation
  order), the store of function objects used as lazy children, the two counters and the
  canonicalization cache.  Every function of the source that mutates or throws returns a
  \<open>result\<close>: the value and the state after, or the thrown error and the state at
  the throw.
\<close>

subsection \<open>Values\<close>

type_synonym addr = nat
type_synonym fid = nat
type_synonym gen = nat

text \<open>
  \<^verbatim>\<open>LazyParser1 = string | RegExp | Parser\<close>,
  \<^verbatim>\<open>LazyParser2 = LazyParser1 | Array<LazyParser1>\<close>,
  \<^verbatim>\<open>LazyParser = LazyParser2 | (() => LazyParser2)\<close>.
  The compiled JavaScript does not enforce the declared types, and \<^verbatim>\<open>unlazy\<close> has a
  last test for a value that is none of them: \<open>LOther t shown\<close> is such a value,
  with its truthiness \<open>t\<close> and its rendering \<open>shown\<close> in a string concatenation.
\<close>

datatype lazy1 = LString string | LRegExp string | LParser addr | LOther bool string
datatype lazy2 = Single lazy1 | Array "lazy1 list"
datatype lazy = Value lazy2 | Thunk fid

text \<open>\<^verbatim>\<open>ParserOptions\<close>; an absent \<^verbatim>\<open>cacheable\<close> is falsy, like \<open>False\<close>.\<close>

record options =
  o_children :: "lazy list option"
  describe :: "(string list \<Rightarrow> string) option"
  cacheable :: bool

text \<open>
  The matcher generator is a closure supplied by the combinator; the resolution code only
  stores it, applies it once to the resolved children and deletes it.  It is kept as an
  opaque token \<open>gen\<close>, and the matcher it generates as the application
  \<open>Matcher g children\<close> to the value of \<^verbatim>\<open>this.children\<close>.  A child slot holds
  \<open>None\<close> where the JavaScript array holds \<^verbatim>\<open>undefined\<close>.
\<close>

datatype matcher = Matcher gen "addr option list option"

record parser =
  parser_id :: nat
  name :: string
  options :: "options option"
  generateMatcher :: "gen option"
  children :: "addr option list option"
  matcher :: "matcher option"
  description :: "string option"
  cacheKey :: "string option"
  recursing :: bool

text \<open>
  A function object used as a lazy child.  Its body either returns a value that exists
  already, throws, or constructs a new \<^verbatim>\<open>Parser\<close> and returns it (as in
  \<^verbatim>\<open>() => pr.regex(/\w+/)\<close>).  \<open>ftag\<close> is the property
  \<^verbatim>\<open>__packrattle_cache_id\<close> that \<^verbatim>\<open>unlazy\<close> writes on the function; \<open>calls\<close>
  is a ghost counter of invocations (the \<^verbatim>\<open>count++\<close> of the test "only once").
\<close>

datatype thunk_body = Yields lazy2 | Raises string | Builds string options gen

record thunk =
  body :: thunk_body
  ftag :: "string option"
  calls :: nat

record state =
  heap :: "addr \<Rightarrow> parser"
  nparsers :: nat
  ParserId :: nat
  funs :: "fid \<Rightarrow> thunk"
  nfuns :: nat
  LazyId :: nat
  cache :: "(string \<times> addr) list"

text \<open>\<^verbatim>\<open>FunctionCache\<close>: one object per resolve pass, mutated by \<^verbatim>\<open>unlazy\<close>.\<close>

type_synonym fcache = "(string \<times> lazy2) list"

datatype error = Error string | TypeError string

datatype ('a, 's) result = Return 'a 's | Throw error 's | Abort

text \<open>
  \<open>Abort\<close> is not an outcome of the program: it is the model running out of the fuel
  that bounds the recursion of \<open>getDescription\<close> and \<open>resolve\<close>.
\<close>

subsection \<open>JavaScript helpers\<close>

text \<open>Truthiness of a possibly undefined string: \<^verbatim>\<open>undefined\<close> and \<^verbatim>\<open>""\<close> are falsy.\<close>

fun truthy :: "string option \<Rightarrow> bool" where
  "truthy None = False"
| "truthy (Some s) = (s \<noteq> [])"

text \<open>Truthiness of a \<^verbatim>\<open>LazyParser2\<close>: objects and arrays are truthy.\<close>

fun truthy_lazy :: "lazy2 \<Rightarrow> bool" where
  "truthy_lazy (Single (LString s)) = (s \<noteq> [])"
| "truthy_lazy (Single (LRegExp r)) = True"
| "truthy_lazy (Single (LParser a)) = True"
| "truthy_lazy (Single (LOther t shown)) = t"
| "truthy_lazy (Array xs) = True"

text \<open>\<^verbatim>\<open>Array.prototype.join\<close>.\<close>

fun join :: "string \<Rightarrow> string list \<Rightarrow> string" where
  "join sep [] = []"
| "join sep [x] = x"
| "join sep (x # y # ys) = x @ sep @ join sep (y # ys)"

text \<open>\<^verbatim>\<open>Number.prototype.toString\<close> on a non-negative integer: its decimal digits.\<close>

definition digit :: "nat \<Rightarrow> char" where
  "digit d = char_of (48 + d)"

fun toString :: "nat \<Rightarrow> string" where
  "toString n = (if n < 10 then [digit n] else toString (n div 10) @ [digit (n mod 10)])"

declare toString.simps [simp del]

text \<open>\<^verbatim>\<open>error.message += suffix\<close>.\<close>

fun add_message :: "error \<Rightarrow> string \<Rightarrow> error" where
  "add_message (Error m) x = Error (m @ x)"
| "add_message (TypeError m) x = TypeError (m @ x)"


text \<open>
  \<^verbatim>\<open>Array.prototype.map\<close> with a callback that changes the state and may throw: the
  elements are visited in order, and a throw leaves the state as the callback left it.
\<close>

fun map_result :: "('s \<Rightarrow> 'a \<Rightarrow> ('b, 's) result) \<Rightarrow> 's \<Rightarrow> 'a list \<Rightarrow> ('b list, 's) result" where
  "map_result f s [] = Return [] s"
| "map_result f s (x # xs) =
     (case f s x of
        Return y s1 \<Rightarrow>
          (case map_result f s1 xs of
             Return ys s2 \<Rightarrow> Return (y # ys) s2
           | Throw e s2 \<Rightarrow> Throw e s2
           | Abort \<Rightarrow> Abort)
      | Throw e s1 \<Rightarrow> Throw e s1
      | Abort \<Rightarrow> Abort)"

subsection \<open>The constructor\<close>

text \<open>
  \<^verbatim>\<open>let ParserId = 1; const __cache = {}; let LazyId = 0;\<close>  No object is allocated yet;
  the content of an address that is not allocated is never read by a program.
\<close>

definition blank :: parser where
  "blank = \<lparr>parser_id = 0, name = [], options = None, generateMatcher = None,
     children = None, matcher = None, description = None, cacheKey = None,
     recursing = False\<rparr>"

definition init_state :: state where
  "init_state = \<lparr>heap = (\<lambda>a. blank), nparsers = 0, ParserId = 1,
     funs = (\<lambda>f. \<lparr>body = Raises [], ftag = None, calls = 0\<rparr>), nfuns = 0,
     LazyId = 0, cache = []\<rparr>"

text \<open>
  \<^verbatim>\<open>constructor(name, options, generateMatcher) { this.id = ParserId++; }\<close>; the other
  fields are declared without a value, \<^verbatim>\<open>recursing = false\<close>.
\<close>

definition new_parser :: "state \<Rightarrow> string \<Rightarrow> options \<Rightarrow> gen \<Rightarrow> addr \<times> state" where
  "new_parser s nm opts g =
     (nparsers s,
      s\<lparr>heap := (heap s)(nparsers s :=
           \<lparr>parser_id = ParserId s, name = nm, options = Some opts,
            generateMatcher = Some g, children = None, matcher = None,
            description = None, cacheKey = None, recursing = False\<rparr>),
        nparsers := Suc (nparsers s),
        ParserId := Suc (ParserId s)\<rparr>)"

text \<open>A new function object (a closure written by the caller), not yet tagged.\<close>

definition new_fun :: "state \<Rightarrow> thunk_body \<Rightarrow> fid \<times> state" where
  "new_fun s b =
     (nfuns s,
      s\<lparr>funs := (funs s)(nfuns s := \<lparr>body = b, ftag = None, calls = 0\<rparr>),
        nfuns := Suc (nfuns s)\<rparr>)"

subsection \<open>unlazy\<close>

text \<open>
  \<^verbatim>\<open>if (!parser[ID]) parser[ID] = (LazyId++).toString(); const id = parser[ID];\<close>
\<close>

definition tag_of :: "state \<Rightarrow> fid \<Rightarrow> string \<times> state" where
  "tag_of s f =
     (case ftag (funs s f) of
        Some t \<Rightarrow>
          if t \<noteq> [] then (t, s)
          else (toString (LazyId s),
                s\<lparr>funs := (funs s)(f := (funs s f)\<lparr>ftag := Some (toString (LazyId s))\<rparr>),
                  LazyId := Suc (LazyId s)\<rparr>)
      | None \<Rightarrow>
          (toString (LazyId s),
           s\<lparr>funs := (funs s)(f := (funs s f)\<lparr>ftag := Some (toString (LazyId s))\<rparr>),
             LazyId := Suc (LazyId s)\<rparr>))"

text \<open>\<^verbatim>\<open>parser()\<close>: the call of the function object, counted.\<close>

definition invoke :: "state \<Rightarrow> fid \<Rightarrow> (lazy2, state) result" where
  "invoke s f =
     (let s1 = s\<lparr>funs := (funs s)(f := (funs s f)\<lparr>calls := Suc (calls (funs s f))\<rparr>)\<rparr>
      in case body (funs s f) of
           Yields v \<Rightarrow> Return v s1
         | Raises m \<Rightarrow> Throw (Error m) s1
         | Builds nm opts g \<Rightarrow>
             (case new_parser s1 nm opts g of (a, s2) \<Rightarrow> Return (Single (LParser a)) s2))"

text \<open>
  The implicit conversions and the final test of \<^verbatim>\<open>unlazy\<close>, in the order of the source:
  a string, a \<^verbatim>\<open>RegExp\<close> and an array each throw \<^verbatim>\<open>Error("unimplemented")\<close>.
\<close>

fun implicits :: "lazy2 \<Rightarrow> error + addr" where
  "implicits (Single (LString x)) = Inl (Error ''unimplemented'')"
| "implicits (Single (LRegExp x)) = Inl (Error ''unimplemented'')"
| "implicits (Array xs) = Inl (Error ''unimplemented'')"
| "implicits (Single (LOther t shown)) = Inl (Error (''Unable to resolve parser: '' @ shown))"
| "implicits (Single (LParser a)) = Inr a"

definition finish_unlazy :: "lazy2 \<Rightarrow> state \<times> fcache \<Rightarrow> (addr, state \<times> fcache) result" where
  "finish_unlazy v w = (case implicits v of Inl e \<Rightarrow> Throw e w | Inr a \<Rightarrow> Return a w)"

definition fc_hit :: "fcache \<Rightarrow> string \<Rightarrow> lazy2 option" where
  "fc_hit fc k = (case map_of fc k of Some v \<Rightarrow> (if truthy_lazy v then Some v else None) | None \<Rightarrow> None)"

fun unlazy :: "state \<times> fcache \<Rightarrow> lazy \<Rightarrow> (addr, state \<times> fcache) result" where
  "unlazy (s, fc) (Value v) = finish_unlazy v (s, fc)"
| "unlazy (s, fc) (Thunk f) =
     (case tag_of s f of
        (k, s1) \<Rightarrow>
          (case fc_hit fc k of
             Some v \<Rightarrow> finish_unlazy v (s1, fc)
           | None \<Rightarrow>
               (case invoke s1 f of
                  Return v s2 \<Rightarrow> finish_unlazy v (s2, (k, v) # fc)
                | Throw e s2 \<Rightarrow> Throw e (s2, fc)
                | Abort \<Rightarrow> Abort)))"

subsection \<open>getDescription\<close>

text \<open>
  \<^verbatim>\<open>defaultDescribe(name)\<close>.
\<close>

definition defaultDescribe :: "string \<Rightarrow> string list \<Rightarrow> string" where
  "defaultDescribe nm cs = (if length cs = 0 then nm else nm @ '':'' @ join '','' cs)"

definition set_recursing :: "state \<Rightarrow> addr \<Rightarrow> bool \<Rightarrow> state" where
  "set_recursing s a b = s\<lparr>heap := (heap s)(a := (heap s a)\<lparr>recursing := b\<rparr>)\<rparr>"

definition set_description :: "state \<Rightarrow> addr \<Rightarrow> string \<Rightarrow> state" where
  "set_description s a d = s\<lparr>heap := (heap s)(a := (heap s a)\<lparr>description := Some d\<rparr>)\<rparr>"

text \<open>\<^verbatim>\<open>p.children && p.children.length > 1\<close>\<close>

definition wide :: "state \<Rightarrow> addr \<Rightarrow> bool" where
  "wide s c = (case children (heap s c) of None \<Rightarrow> False | Some cs \<Rightarrow> length cs > 1)"

definition parens :: "(string, 's) result \<Rightarrow> (string, 's) result" where
  "parens r = (case r of Return d s \<Rightarrow> Return (''('' @ d @ '')'') s | Throw e s \<Rightarrow> Throw e s | Abort \<Rightarrow> Abort)"

definition undefined_read :: error where
  "undefined_read = TypeError ''Cannot read property of undefined''"

text \<open>
  The recursion of \<^verbatim>\<open>getDescription\<close> follows the child pointers, which may form a
  cycle; the source stops it with the \<^verbatim>\<open>recursing\<close> flag.  The model recurses on a
  fuel argument.  Reading a property of \<^verbatim>\<open>undefined\<close> (a child slot that is
  \<^verbatim>\<open>undefined\<close>, \<^verbatim>\<open>this.children\<close> of a parser that is not resolved,
  \<^verbatim>\<open>this.options\<close> after it was deleted) throws a \<^verbatim>\<open>TypeError\<close>.
\<close>

primrec getDescription :: "nat \<Rightarrow> state \<Rightarrow> addr \<Rightarrow> (string, state) result" where
  "getDescription 0 s a = Abort"
| "getDescription (Suc n) s a =
     (if truthy (description (heap s a)) then Return (the (description (heap s a))) s
      else if recursing (heap s a) then Return ''...'' s
      else
        (case children (heap s a) of
           None \<Rightarrow> Throw undefined_read (set_recursing s a True)
         | Some cs \<Rightarrow>
             (case map_result
                     (\<lambda>s1 p. case p of
                                None \<Rightarrow> Throw undefined_read s1
                              | Some c \<Rightarrow>
                                  if wide s1 c then parens (getDescription n s1 c)
                                  else getDescription n s1 c)
                     (set_recursing s a True) cs of
                Return list s2 \<Rightarrow>
                  (case options (heap s2 a) of
                     None \<Rightarrow> Throw undefined_read (set_recursing s2 a False)
                   | Some opts \<Rightarrow>
                       (let d = (case describe opts of
                                   Some f \<Rightarrow> f list
                                 | None \<Rightarrow> defaultDescribe (name (heap s2 a)) list)
                        in Return d (set_description (set_recursing s2 a False) a d)))
              | Throw e s2 \<Rightarrow> Throw e s2
              | Abort \<Rightarrow> Abort)))"

subsection \<open>resolve\<close>

text \<open>
  \<^verbatim>\<open>quote\<close> is imported from \<^verbatim>\<open>./strings\<close>, which is not among the sources: it is a
  parameter \<open>q\<close> of the model.  Its argument may be \<^verbatim>\<open>undefined\<close>, and it may throw.
\<close>

type_synonym quote = "string option \<Rightarrow> error + string"

definition set_children :: "state \<Rightarrow> addr \<Rightarrow> addr option list \<Rightarrow> state" where
  "set_children s a cs = s\<lparr>heap := (heap s)(a := (heap s a)\<lparr>children := Some cs\<rparr>)\<rparr>"

definition set_cacheKey :: "state \<Rightarrow> addr \<Rightarrow> string \<Rightarrow> state" where
  "set_cacheKey s a k = s\<lparr>heap := (heap s)(a := (heap s a)\<lparr>cacheKey := Some k\<rparr>)\<rparr>"

text \<open>
  \<^verbatim>\<open>error.message += " (inside " + this.name + ")"; throw error;\<close>
\<close>

definition inside :: "string \<Rightarrow> string" where
  "inside nm = '' (inside '' @ nm @ '')''"

definition annotate :: "string \<Rightarrow> ('a, 's) result \<Rightarrow> ('a, 's) result" where
  "annotate nm r = (case r of Throw e s \<Rightarrow> Throw (add_message e (inside nm)) s | _ \<Rightarrow> r)"

text \<open>
  Line 100: \<^verbatim>\<open>this.children = (this.options.children || []).map(p => unlazy(p, functionCache))\<close>.
  The assignment happens only when every \<^verbatim>\<open>unlazy\<close> returned; the value is the
  array assigned, which line 101 reads back.
\<close>

definition unlazy_children :: "state \<times> fcache \<Rightarrow> addr \<Rightarrow> (addr list, state \<times> fcache) result" where
  "unlazy_children w a =
     (case options (heap (fst w) a) of
        None \<Rightarrow> Throw undefined_read w
      | Some opts \<Rightarrow>
          (case map_result unlazy w (case o_children opts of None \<Rightarrow> [] | Some ls \<Rightarrow> ls) of
             Return cs (s1, fc1) \<Rightarrow> Return cs (set_children s1 a (map Some cs), fc1)
           | Throw e w1 \<Rightarrow> Throw e w1
           | Abort \<Rightarrow> Abort))"

text \<open>
  Line 114: \<^verbatim>\<open>this.children.reduce((sum, child) => sum && child.cacheKey !== undefined, true)\<close>.
  \<^verbatim>\<open>&&\<close> does not read \<^verbatim>\<open>child.cacheKey\<close> once \<^verbatim>\<open>sum\<close> is false.
\<close>

fun all_keyed :: "state \<Rightarrow> bool \<Rightarrow> addr option list \<Rightarrow> error + bool" where
  "all_keyed s acc [] = Inr acc"
| "all_keyed s acc (c # cs) =
     (if acc then
        (case c of
           None \<Rightarrow> Inl undefined_read
         | Some b \<Rightarrow> all_keyed s (cacheKey (heap s b) \<noteq> None) cs)
      else all_keyed s False cs)"

text \<open>Line 115: \<^verbatim>\<open>this.children.map(p => quote(p.cacheKey))\<close>.\<close>

fun quoted_keys :: "quote \<Rightarrow> state \<Rightarrow> addr option list \<Rightarrow> error + string list" where
  "quoted_keys q s [] = Inr []"
| "quoted_keys q s (c # cs) =
     (case c of
        None \<Rightarrow> Inl undefined_read
      | Some b \<Rightarrow>
          (case q (cacheKey (heap s b)) of
             Inl e \<Rightarrow> Inl e
           | Inr k \<Rightarrow>
               (case quoted_keys q s cs of
                  Inl e \<Rightarrow> Inl e
                | Inr ks \<Rightarrow> Inr (k # ks))))"

text \<open>
  Lines 110 to 116, for a parser whose options say \<^verbatim>\<open>cacheable\<close>: the cache key of a
  parser without children is made of its name and description, the cache key of a parser
  with children of its name and the children's cache keys, when each child has one.
\<close>

definition compute_key :: "quote \<Rightarrow> state \<Rightarrow> addr \<Rightarrow> (unit, state) result" where
  "compute_key q s a =
     (if (case children (heap s a) of None \<Rightarrow> True | Some cs \<Rightarrow> length cs = 0) then
        (case q (description (heap s a)) of
           Inl e \<Rightarrow> Throw e s
         | Inr d \<Rightarrow> Return () (set_cacheKey s a (name (heap s a) @ '':'' @ d)))
      else
        (case all_keyed s True (case children (heap s a) of None \<Rightarrow> [] | Some cs \<Rightarrow> cs) of
           Inl e \<Rightarrow> Throw e s
         | Inr ok \<Rightarrow>
             if ok then
               (case quoted_keys q s (case children (heap s a) of None \<Rightarrow> [] | Some cs \<Rightarrow> cs) of
                  Inl e \<Rightarrow> Throw e s
                | Inr ks \<Rightarrow>
                    Return () (set_cacheKey s a (name (heap s a) @ ''('' @ join '','' ks @ '')'')))
             else Return () s))"

text \<open>
  Lines 124 to 128: \<^verbatim>\<open>this.matcher = this.generateMatcher(this.children);
  delete this.options; delete this.generateMatcher; return this;\<close>
\<close>

definition generate :: "state \<Rightarrow> addr \<Rightarrow> (addr option, state) result" where
  "generate s a =
     (case generateMatcher (heap s a) of
        None \<Rightarrow> Throw (TypeError ''this.generateMatcher is not a function'') s
      | Some g \<Rightarrow>
          Return (Some a)
            (s\<lparr>heap := (heap s)(a := (heap s a)\<lparr>matcher := Some (Matcher g (children (heap s a))),
                   options := None, generateMatcher := None\<rparr>)\<rparr>))"

text \<open>
  Lines 118 to 128: \<^verbatim>\<open>if (this.cacheKey) { if (__cache[this.cacheKey]) return
  __cache[this.cacheKey]; __cache[this.cacheKey] = this; }\<close> and the generation of the
  matcher.
\<close>

definition register :: "state \<Rightarrow> addr \<Rightarrow> (addr option, state) result" where
  "register s a =
     (case cacheKey (heap s a) of
        None \<Rightarrow> generate s a
      | Some k \<Rightarrow>
          if k = [] then generate s a
          else
            (case map_of (cache s) k of
               Some r \<Rightarrow> Return (Some r) s
             | None \<Rightarrow> generate (s\<lparr>cache := (k, a) # cache s\<rparr>) a))"

text \<open>Lines 107 to 128, after the children are resolved.\<close>

definition complete :: "nat \<Rightarrow> quote \<Rightarrow> state \<Rightarrow> addr \<Rightarrow> (addr option, state) result" where
  "complete n q s a =
     (case getDescription n s a of
        Return d s1 \<Rightarrow>
          (case options (heap s1 a) of
             None \<Rightarrow> Throw undefined_read s1
           | Some opts \<Rightarrow>
               if cacheable opts then
                 (case compute_key q s1 a of
                    Return u s2 \<Rightarrow> register s2 a
                  | Throw e s2 \<Rightarrow> Throw e s2
                  | Abort \<Rightarrow> Abort)
               else generate s1 a)
      | Throw e s1 \<Rightarrow> Throw e s1
      | Abort \<Rightarrow> Abort)"

definition with_fc :: "fcache \<Rightarrow> ('a, state) result \<Rightarrow> ('a, state \<times> fcache) result" where
  "with_fc fc r = (case r of Return x s \<Rightarrow> Return x (s, fc) | Throw e s \<Rightarrow> Throw e (s, fc) | Abort \<Rightarrow> Abort)"

text \<open>
  \<^verbatim>\<open>resolve(functionCache)\<close>.  The recursion follows the children, which may lead back to a
  parser whose resolution is under way (its \<^verbatim>\<open>children\<close> are set by then, so the call
  returns at line 97); the model recurses on a fuel argument.  The result is the returned
  reference: \<open>None\<close> is \<^verbatim>\<open>undefined\<close>, which line 96 returns when \<^verbatim>\<open>__cache\<close> has no
  entry under the key.
\<close>

primrec resolve :: "nat \<Rightarrow> quote \<Rightarrow> state \<times> fcache \<Rightarrow> addr \<Rightarrow> (addr option, state \<times> fcache) result" where
  "resolve 0 q w a = Abort"
| "resolve (Suc n) q w a =
     (if truthy (cacheKey (heap (fst w) a))
      then Return (map_of (cache (fst w)) (the (cacheKey (heap (fst w) a)))) w
      else if children (heap (fst w) a) \<noteq> None then Return (Some a) w
      else
        (case annotate (name (heap (fst w) a)) (unlazy_children w a) of
           Return cs w1 \<Rightarrow>
             (case annotate (name (heap (fst w) a)) (map_result (resolve n q) w1 cs) of
                Return rs (s2, fc2) \<Rightarrow> with_fc fc2 (complete n q (set_children s2 a rs) a)
              | Throw e w2 \<Rightarrow> Throw e w2
              | Abort \<Rightarrow> Abort)
         | Throw e w1 \<Rightarrow> Throw e w1
         | Abort \<Rightarrow> Abort))"

section \<open>Matches, map, execute and run\<close>

text \<open>
  \<^verbatim>\<open>Match\<close>, \<^verbatim>\<open>MatchSuccess\<close>, \<^verbatim>\<open>MatchFailure\<close> and \<^verbatim>\<open>Span\<close> are declared in
  \<^verbatim>\<open>./matcher\<close>, which is not among the sources.  \<^verbatim>\<open>run\<close> reads \<^verbatim>\<open>rv.message\<close> and
  \<^verbatim>\<open>rv.span\<close> of a failure and \<^verbatim>\<open>rv.value\<close> of a success, and \<^verbatim>\<open>map\<close> builds
  \<^verbatim>\<open>new MatchSuccess(span, value)\<close>; the span type is left open.
\<close>

datatype ('sp, 'v) match = MatchSuccess 'sp 'v | MatchFailure string 'sp

text \<open>
  Modelled from the spec: \<^verbatim>\<open>mapMatch\<close> of \<^verbatim>\<open>./matcher\<close> (not among the sources).
  "\<^verbatim>\<open>mapMatch(match, f)\<close> applies \<^verbatim>\<open>f(span, value)\<close> only on the success branch,
  re-wrapping the result as a new \<^verbatim>\<open>Match\<close> (propagating \<^verbatim>\<open>MatchFailure\<close> unchanged)".
\<close>

fun mapMatch :: "('sp, 'a) match \<Rightarrow> ('sp \<Rightarrow> 'a \<Rightarrow> ('sp, 'b) match) \<Rightarrow> ('sp, 'b) match" where
  "mapMatch (MatchSuccess span v) f = f span v"
| "mapMatch (MatchFailure m span) f = MatchFailure m span"

text \<open>
  Modelled from the spec: \<^verbatim>\<open>schedule\<close> of \<^verbatim>\<open>./matcher\<close> (not among the sources).
  "When a Matcher needs the result of a nested parser, it registers a continuation with the
  scheduler via \<^verbatim>\<open>schedule(parser, position, continuation)\<close>"; the scheduler "invokes every
  continuation waiting on that (parser, position) pair with the \<^verbatim>\<open>Match\<close>".  \<open>exec\<close> is
  the engine's match of a parser at a position.
\<close>

definition schedule :: "(addr \<Rightarrow> nat \<Rightarrow> ('sp, 'a) match) \<Rightarrow> addr \<Rightarrow> nat \<Rightarrow>
    (('sp, 'a) match \<Rightarrow> ('sp, 'b) match) \<Rightarrow> ('sp, 'b) match" where
  "schedule exec p index k = k (exec p index)"

text \<open>
  Modelled from the spec: the reject sentinel \<^verbatim>\<open>pr.reject\<close> exported by the library (not
  among the sources), "a distinguished reject sentinel" among the values a transform
  function may return.
\<close>

datatype 'a jsvalue = Reject | Plain 'a

text \<open>
  The argument of \<^verbatim>\<open>map\<close>: \<^verbatim>\<open>f: U | ((item: Out, span: Span) => U)\<close>, told apart by
  \<^verbatim>\<open>typeof f === "function"\<close>.
\<close>

datatype ('a, 'sp, 'u) transform = Callable "'a \<Rightarrow> 'sp \<Rightarrow> 'u" | Constant 'u

text \<open>
  The continuation that \<^verbatim>\<open>map\<close> passes to \<^verbatim>\<open>schedule\<close> (lines 173 to 178):
  \<^verbatim>\<open>match => mapMatch(match, (span, value) => new MatchSuccess(span,
  (typeof f === "function") ? f(value, span) : f))\<close>.
\<close>

definition map_continuation :: "('a, 'sp, 'u) transform \<Rightarrow> ('sp, 'a) match \<Rightarrow> ('sp, 'u) match" where
  "map_continuation f m =
     mapMatch m (\<lambda>span v. MatchSuccess span (case f of Callable g \<Rightarrow> g v span | Constant c \<Rightarrow> c))"

text \<open>
  The matcher that the generator of \<^verbatim>\<open>map\<close> returns (lines 172 to 180):
  \<^verbatim>\<open>(stream, index) => schedule(this, index, ...)\<close>.
\<close>

definition map_matcher :: "(addr \<Rightarrow> nat \<Rightarrow> ('sp, 'a) match) \<Rightarrow> addr \<Rightarrow> ('a, 'sp, 'u) transform \<Rightarrow>
    'i list \<Rightarrow> nat \<Rightarrow> ('sp, 'u) match" where
  "map_matcher exec this f stream index = schedule exec this index (map_continuation f)"

text \<open>
  \<^verbatim>\<open>map(f)\<close> itself constructs \<^verbatim>\<open>new Parser("map", { children: [ this ] }, ...)\<close>; \<open>g\<close>
  is the token of the generator above.
\<close>

definition Parser_map :: "state \<Rightarrow> addr \<Rightarrow> gen \<Rightarrow> addr \<times> state" where
  "Parser_map s this g =
     new_parser s ''map''
       \<lparr>o_children = Some [Value (Single (LParser this))], describe = None, cacheable = False\<rparr> g"

text \<open>
  \<^verbatim>\<open>execute(stream, options)\<close>: \<^verbatim>\<open>new Engine(stream, options).execute(this.resolve())\<close>.
  The engine (\<^verbatim>\<open>./engine\<close>) is not among the sources: \<open>eng\<close> stands for the match it
  computes for a resolved reference.
\<close>

definition execute :: "nat \<Rightarrow> quote \<Rightarrow> (state \<Rightarrow> addr option \<Rightarrow> 'i list \<Rightarrow> ('sp, 'v) match) \<Rightarrow>
    state \<Rightarrow> addr \<Rightarrow> 'i list \<Rightarrow> (('sp, 'v) match, state \<times> fcache) result" where
  "execute n q eng s a stream =
     (case resolve n q (s, []) a of
        Return r w \<Rightarrow> Return (eng (fst w) r stream) w
      | Throw e w \<Rightarrow> Throw e w
      | Abort \<Rightarrow> Abort)"

text \<open>
  What \<^verbatim>\<open>run\<close> throws: a \<^verbatim>\<open>ParseError(message, span)\<close>, or an error of the resolution.
\<close>

datatype 'sp exn = ParseError string 'sp | Failure error

text \<open>
  Lines 157 to 163 of \<^verbatim>\<open>run\<close>.  The third branch, \<^verbatim>\<open>throw new Error("impossible")\<close>, is
  for a value that is neither \<^verbatim>\<open>MatchFailure\<close> nor \<^verbatim>\<open>MatchSuccess\<close>; the type \<open>match\<close>
  has no such value.
\<close>

fun run_convert :: "('sp, 'v) match \<Rightarrow> 'sp exn + 'v" where
  "run_convert (MatchFailure m span) = Inl (ParseError m span)"
| "run_convert (MatchSuccess span v) = Inr v"

text \<open>
  \<^verbatim>\<open>this.consume().resolve().execute(stream, options)\<close>, the first line of \<^verbatim>\<open>run\<close>.
  \<^verbatim>\<open>consume\<close> calls \<^verbatim>\<open>chain\<close> and \<^verbatim>\<open>simple.end\<close>, which are not among the sources:
  \<open>consume\<close> stands for the construction, which returns the new parser.  Calling
  \<^verbatim>\<open>execute\<close> on \<^verbatim>\<open>undefined\<close> throws a \<^verbatim>\<open>TypeError\<close>.
\<close>

definition consuming :: "nat \<Rightarrow> quote \<Rightarrow> (state \<Rightarrow> addr option \<Rightarrow> 'i list \<Rightarrow> ('sp, 'v) match) \<Rightarrow>
    (state \<Rightarrow> addr \<Rightarrow> addr \<times> state) \<Rightarrow> state \<Rightarrow> addr \<Rightarrow> 'i list \<Rightarrow>
    (('sp, 'v) match, state \<times> fcache) result" where
  "consuming n q eng consume s a stream =
     (case consume s a of
        (c, s1) \<Rightarrow>
          (case resolve n q (s1, []) c of
             Return r w \<Rightarrow>
               (case r of
                  None \<Rightarrow> Throw undefined_read w
                | Some b \<Rightarrow> execute n q eng (fst w) b stream)
           | Throw e w \<Rightarrow> Throw e w
           | Abort \<Rightarrow> Abort))"

text \<open>
  \<^verbatim>\<open>run(stream, options)\<close>: the consuming execution, then the conversion.  \<open>None\<close> is
  the model out of fuel.
\<close>

definition run :: "nat \<Rightarrow> quote \<Rightarrow> (state \<Rightarrow> addr option \<Rightarrow> 'i list \<Rightarrow> ('sp, 'v) match) \<Rightarrow>
    (state \<Rightarrow> addr \<Rightarrow> addr \<times> state) \<Rightarrow> state \<Rightarrow> addr \<Rightarrow> 'i list \<Rightarrow> ('sp exn + 'v) option" where
  "run n q eng consume s a stream =
     (case consuming n q eng consume s a stream of
        Return rv w \<Rightarrow> Some (run_convert rv)
      | Throw e w \<Rightarrow> Some (Inl (Failure e))
      | Abort \<Rightarrow> None)"

section \<open>Relations between states, invariants\<close>

text \<open>
  The state a call leaves behind, whether it returned or threw; \<open>None\<close> when the model ran out of fuel.
\<close>

fun after :: "('a, 's) result \<Rightarrow> 's option" where
  "after (Return x s) = Some s"
| "after (Throw e s) = Some s"
| "after Abort = None"

text \<open>
  The value a call returned, if it returned.
\<close>

fun returned :: "('a, 's) result \<Rightarrow> 'a option" where
  "returned (Return x s) = Some x"
| "returned (Throw e s) = None"
| "returned Abort = None"


text \<open>
  The program state after a call of \<^verbatim>\<open>resolve\<close> (the initial state when the model ran out of fuel).
\<close>

definition state_after :: "('a, state \<times> fcache) result \<Rightarrow> state" where
  "state_after r = (case after r of Some w \<Rightarrow> fst w | None \<Rightarrow> init_state)"

text \<open>
  \<open>ext s t\<close>: \<open>t\<close> is a later state of \<open>s\<close> as far as the parsers of \<open>s\<close> can tell.  No
  parser was deallocated, no function object was created, every entry of \<^verbatim>\<open>__cache\<close> is
  still there, the \<^verbatim>\<open>id\<close> and \<^verbatim>\<open>name\<close> of every parser of \<open>s\<close> are unchanged, and a
  parser whose \<^verbatim>\<open>children\<close> were set in \<open>s\<close> has the same \<^verbatim>\<open>children\<close> and
  \<^verbatim>\<open>cacheKey\<close> in \<open>t\<close>.
\<close>

definition ext :: "state \<Rightarrow> state \<Rightarrow> bool" where
  "ext s t \<longleftrightarrow>
     nparsers s \<le> nparsers t \<and> nfuns t = nfuns s \<and>
     (\<forall>k v. map_of (cache s) k = Some v \<longrightarrow> map_of (cache t) k = Some v) \<and>
     (\<forall>b<nparsers s.
        parser_id (heap t b) = parser_id (heap s b) \<and> name (heap t b) = name (heap s b) \<and>
        (children (heap s b) \<noteq> None \<longrightarrow>
           children (heap t b) = children (heap s b) \<and> cacheKey (heap t b) = cacheKey (heap s b)))"

text \<open>
  \<open>desc_only s t\<close>: \<open>t\<close> differs from \<open>s\<close> at most in the fields \<^verbatim>\<open>description\<close>
  and \<^verbatim>\<open>recursing\<close> of its parsers (what \<^verbatim>\<open>getDescription\<close> writes).
\<close>

definition desc_only :: "state \<Rightarrow> state \<Rightarrow> bool" where
  "desc_only s t \<longleftrightarrow>
     nparsers t = nparsers s \<and> ParserId t = ParserId s \<and> funs t = funs s \<and>
     nfuns t = nfuns s \<and> LazyId t = LazyId s \<and> cache t = cache s \<and>
     (\<forall>b. parser_id (heap t b) = parser_id (heap s b) \<and> name (heap t b) = name (heap s b) \<and>
          options (heap t b) = options (heap s b) \<and>
          generateMatcher (heap t b) = generateMatcher (heap s b) \<and>
          children (heap t b) = children (heap s b) \<and> matcher (heap t b) = matcher (heap s b) \<and>
          cacheKey (heap t b) = cacheKey (heap s b))"

text \<open>
  \<open>alloc_only s t\<close>: \<open>t\<close> has the parsers of \<open>s\<close> unchanged and the same
  \<^verbatim>\<open>__cache\<close>; it may have new parsers (what the calls of \<^verbatim>\<open>unlazy\<close> do to the parsers).
\<close>

definition alloc_only :: "state \<Rightarrow> state \<Rightarrow> bool" where
  "alloc_only s t \<longleftrightarrow>
     nparsers s \<le> nparsers t \<and> cache t = cache s \<and> (\<forall>b<nparsers s. heap t b = heap s b)"

text \<open>
  \<open>settled s a r\<close>: in state \<open>s\<close> the parser \<open>a\<close> is past its resolution and \<open>r\<close>
  is what \<^verbatim>\<open>resolve\<close> returns for it at line 96 or 97: the entry of \<^verbatim>\<open>__cache\<close> under its
  cache key when the key is truthy, and the parser itself otherwise.
\<close>

definition settled :: "state \<Rightarrow> addr \<Rightarrow> addr option \<Rightarrow> bool" where
  "settled s a r \<longleftrightarrow>
     (case cacheKey (heap s a) of
        None \<Rightarrow> children (heap s a) \<noteq> None \<and> r = Some a
      | Some k \<Rightarrow> if k \<noteq> [] then r = map_of (cache s) k
                  else children (heap s a) \<noteq> None \<and> r = Some a)"

text \<open>
  No dangling reference: a parser or function object that a value refers to is allocated.
\<close>

fun valid_lazy1 :: "state \<Rightarrow> lazy1 \<Rightarrow> bool" where
  "valid_lazy1 s (LParser a) = (a < nparsers s)"
| "valid_lazy1 s (LString x) = True"
| "valid_lazy1 s (LRegExp x) = True"
| "valid_lazy1 s (LOther t x) = True"

fun valid_lazy2 :: "state \<Rightarrow> lazy2 \<Rightarrow> bool" where
  "valid_lazy2 s (Single x) = valid_lazy1 s x"
| "valid_lazy2 s (Array xs) = list_all (valid_lazy1 s) xs"

fun valid_lazy :: "state \<Rightarrow> lazy \<Rightarrow> bool" where
  "valid_lazy s (Value v) = valid_lazy2 s v"
| "valid_lazy s (Thunk f) = (f < nfuns s)"

definition valid_options :: "state \<Rightarrow> options \<Rightarrow> bool" where
  "valid_options s opts \<longleftrightarrow> (\<forall>ls. o_children opts = Some ls \<longrightarrow> list_all (valid_lazy s) ls)"

fun valid_body :: "state \<Rightarrow> thunk_body \<Rightarrow> bool" where
  "valid_body s (Yields v) = valid_lazy2 s v"
| "valid_body s (Raises m) = True"
| "valid_body s (Builds nm opts g) = valid_options s opts"

text \<open>
  A resolved child is a parser that is allocated, never \<^verbatim>\<open>undefined\<close>.
\<close>

fun valid_ref :: "state \<Rightarrow> addr option \<Rightarrow> bool" where
  "valid_ref s None = False"
| "valid_ref s (Some b) = (b < nparsers s)"

definition valid_parser :: "state \<Rightarrow> parser \<Rightarrow> bool" where
  "valid_parser s p \<longleftrightarrow>
     (\<forall>opts. options p = Some opts \<longrightarrow> valid_options s opts) \<and>
     (\<forall>cs. children p = Some cs \<longrightarrow> list_all (valid_ref s) cs)"

text \<open>
  An entry \<open>(k, r)\<close> of \<^verbatim>\<open>__cache\<close> is canonical when \<open>r\<close> is an allocated parser whose
  \<^verbatim>\<open>cacheKey\<close> is the non-empty \<open>k\<close> and whose \<^verbatim>\<open>children\<close> are set.
\<close>

definition canonical :: "state \<Rightarrow> string \<times> addr \<Rightarrow> bool" where
  "canonical s e \<longleftrightarrow>
     snd e < nparsers s \<and> fst e \<noteq> [] \<and> cacheKey (heap s (snd e)) = Some (fst e) \<and>
     children (heap s (snd e)) \<noteq> None"

text \<open>
  The parser \<open>a\<close> is keyed when its \<^verbatim>\<open>cacheKey\<close>, if set, is non-empty and has an entry in
  \<^verbatim>\<open>__cache\<close>.
\<close>

definition keyed :: "state \<Rightarrow> addr \<Rightarrow> bool" where
  "keyed s a \<longleftrightarrow>
     (\<forall>k. cacheKey (heap s a) = Some k \<longrightarrow> k \<noteq> [] \<and> map_of (cache s) k \<noteq> None)"

text \<open>
  The \<^verbatim>\<open>id\<close>s of the allocated parsers are positive, below the counter \<^verbatim>\<open>ParserId\<close>
  and strictly increasing in the order of construction.
\<close>

definition ids_ok :: "state \<Rightarrow> bool" where
  "ids_ok s \<longleftrightarrow> 0 < ParserId s \<and>
     (\<forall>a<nparsers s. 0 < parser_id (heap s a) \<and> parser_id (heap s a) < ParserId s \<and>
        (\<forall>b<a. parser_id (heap s b) < parser_id (heap s a)))"

text \<open>
  The invariant of the program states.
\<close>

definition wf :: "state \<Rightarrow> bool" where
  "wf s \<longleftrightarrow>
     (\<forall>a<nparsers s. valid_parser s (heap s a) \<and> keyed s a) \<and>
     (\<forall>f<nfuns s. valid_body s (body (funs s f))) \<and>
     list_all (canonical s) (cache s) \<and> ids_ok s"

text \<open>
  The invariant of a state together with the function cache of a resolve pass under way.
\<close>

definition wfw :: "state \<times> fcache \<Rightarrow> bool" where
  "wfw w \<longleftrightarrow> wf (fst w) \<and> list_all (\<lambda>e. valid_lazy2 (fst w) (snd e)) (snd w)"

text \<open>
  A closure used as a lazy child reads a variable of the caller, as in
  \<^verbatim>\<open>const p = alt(x, () => p)\<close>; \<open>rebind\<close> is the assignment to that variable, after which
  the function returns the new value.
\<close>

definition rebind :: "state \<Rightarrow> fid \<Rightarrow> thunk_body \<Rightarrow> state" where
  "rebind s f b = s\<lparr>funs := (funs s)(f := (funs s f)\<lparr>body := b\<rparr>)\<rparr>"

definition grows :: "state \<Rightarrow> state \<Rightarrow> bool" where
  "grows s t \<longleftrightarrow> nparsers s \<le> nparsers t \<and> nfuns s \<le> nfuns t"

text \<open>
  The states a program reaches through the interface: constructing parsers and closures
  over objects that exist, assigning to a variable that a closure reads, and calling
  \<^verbatim>\<open>resolve()\<close> with the default, empty function cache (a call that returns or throws).
\<close>

inductive reachable :: "state \<Rightarrow> bool" where
  start: "reachable init_state"
| construct: "reachable s \<Longrightarrow> valid_options s opts \<Longrightarrow> reachable (snd (new_parser s nm opts g))"
| closure: "reachable s \<Longrightarrow> valid_body s b \<Longrightarrow> reachable (snd (new_fun s b))"
| assign: "reachable s \<Longrightarrow> f < nfuns s \<Longrightarrow> valid_body s b \<Longrightarrow> reachable (rebind s f b)"
| resolved: "reachable s \<Longrightarrow> a < nparsers s \<Longrightarrow> after (resolve n q (s, []) a) = Some (t, fc) \<Longrightarrow> reachable t"



section \<open>Example grammars\<close>

text \<open>
  \<^verbatim>\<open>pr.chain("abc", "123", (a, b) => b + a)\<close> of the test "turns strings into parsers":
  a parser named \<^verbatim>\<open>chain\<close> whose lazy children are two string literals.
\<close>

definition implicit_example :: state where
  "implicit_example = snd (new_parser init_state ''chain''
     \<lparr>o_children = Some [Value (Single (LString ''abc'')), Value (Single (LString ''123''))],
      describe = None, cacheable = False\<rparr> 0)"



text \<open>
  A \<^verbatim>\<open>quote\<close> for the examples: it wraps a string in double quotes and throws on \<^verbatim>\<open>undefined\<close>.
\<close>

definition example_quote :: quote where
  "example_quote x = (case x of None \<Rightarrow> Inl undefined_read | Some s \<Rightarrow> Inr ([CHR 0x22] @ s @ [CHR 0x22]))"

text \<open>
  The options of a cacheable parser without children whose description is \<open>d\<close>, as \<^verbatim>\<open>simple.string\<close> would build.
\<close>

definition leaf :: "string \<Rightarrow> options" where
  "leaf d = \<lparr>o_children = None, describe = Some (\<lambda>cs. d), cacheable = True\<rparr>"

text \<open>
  Two parsers named \<^verbatim>\<open>string\<close> constructed one after the other, with descriptions \<open>d\<close> and \<open>e\<close>.
\<close>

definition two_leaves :: "string \<Rightarrow> string \<Rightarrow> state" where
  "two_leaves d e =
     snd (new_parser (snd (new_parser init_state ''string'' (leaf d) 0)) ''string'' (leaf e) 1)"

text \<open>
  The state after \<^verbatim>\<open>resolve()\<close> was called on the first and then on the second of them.
\<close>

definition resolved_leaves :: "string \<Rightarrow> string \<Rightarrow> state" where
  "resolved_leaves d e =
     state_after (resolve 2 example_quote
       (state_after (resolve 2 example_quote (two_leaves d e, []) 0), []) 1)"



section \<open>Properties\<close>

subsection \<open>What a call changes, and what it preserves\<close>

lemma ext_refl: "ext s s" by (simp add: ext_def)

lemma ext_trans: "ext s t \<Longrightarrow> ext t u \<Longrightarrow> ext s u"
  unfolding ext_def by (auto simp: le_trans)

lemma map_result_after:
  assumes r: "\<And>s. R s s" and t: "\<And>s t u. R s t \<Longrightarrow> R t u \<Longrightarrow> R s u"
    and step: "\<And>s x s'. after (f s x) = Some s' \<Longrightarrow> R s s'"
  shows "after (map_result f s xs) = Some s' \<Longrightarrow> R s s'"
proof (induction xs arbitrary: s)
  case Nil
  then show ?case using r by simp
next
  case (Cons x xs)
  show ?case
  proof (cases "f s x")
    case (Return y s1)
    then have 1: "R s s1" using step[of s x s1] by simp
    have 2: "after (map_result f s1 xs) = Some s'"
      using Cons.prems Return by (auto split: result.splits)
    have "R s1 s'" using Cons.IH[OF 2] .
    with 1 show ?thesis using t by blast
  next
    case (Throw e s1)
    then show ?thesis using Cons.prems step[of s x s1] by simp
  next
    case Abort
    then show ?thesis using Cons.prems by simp
  qed
qed

lemma tag_of_ext: "tag_of s f = (k, s1) \<Longrightarrow> ext s s1"
  by (auto simp: tag_of_def ext_def split: option.splits if_splits)

lemma invoke_ext: "after (invoke s f) = Some s1 \<Longrightarrow> ext s s1"
  by (auto simp: invoke_def ext_def new_parser_def Let_def split: thunk_body.splits)

lemma finish_unlazy_after: "after (finish_unlazy v w) = Some w' \<Longrightarrow> w' = w"
  by (auto simp: finish_unlazy_def split: sum.splits)

lemma unlazy_ext: "after (unlazy w x) = Some w' \<Longrightarrow> ext (fst w) (fst w')"
proof (cases w)
  case (Pair s fc)
  assume a: "after (unlazy w x) = Some w'"
  show ?thesis
  proof (cases x)
    case (Value v)
    with a Pair show ?thesis by (auto dest!: finish_unlazy_after simp: ext_refl)
  next
    case (Thunk f)
    obtain k s1 where t: "tag_of s f = (k, s1)" by (cases "tag_of s f")
    have e1: "ext s s1" using tag_of_ext[OF t] .
    show ?thesis
    proof (cases "fc_hit fc k")
      case (Some v)
      with a Pair Thunk t have "w' = (s1, fc)" by (auto dest!: finish_unlazy_after)
      with e1 Pair show ?thesis by simp
    next
      case None
      show ?thesis
      proof (cases "invoke s1 f")
        case (Return v s2)
        with a Pair Thunk t None have "w' = (s2, (k, v) # fc)" by (auto dest!: finish_unlazy_after)
        moreover have "ext s1 s2" using invoke_ext[of s1 f s2] Return by simp
        ultimately show ?thesis using e1 Pair ext_trans by auto
      next
        case (Throw e s2)
        with a Pair Thunk t None have "w' = (s2, fc)" by auto
        moreover have "ext s1 s2" using invoke_ext[of s1 f s2] Throw by simp
        ultimately show ?thesis using e1 Pair ext_trans by auto
      next
        case Abort
        with a Pair Thunk t None show ?thesis by auto
      qed
    qed
  qed
qed

lemma ext_upd:
  assumes "ext s t" and "a < nparsers s \<Longrightarrow> children (heap s a) = None"
    and "parser_id u = parser_id (heap t a)" and "name u = name (heap t a)"
  shows "ext s (t\<lparr>heap := (heap t)(a := u)\<rparr>)"
  using assms unfolding ext_def by auto

lemma ext_cache:
  assumes "ext s t" and "map_of (cache t) k = None"
  shows "ext s (t\<lparr>cache := (k, a) # cache t\<rparr>)"
  using assms unfolding ext_def by auto

lemma desc_only_refl: "desc_only s s"
  by (simp add: desc_only_def)

lemma desc_only_trans: "desc_only s t \<Longrightarrow> desc_only t u \<Longrightarrow> desc_only s u"
  by (simp add: desc_only_def)

lemma desc_only_set_recursing: "desc_only s (set_recursing s a v)"
  by (simp add: desc_only_def set_recursing_def)

lemma desc_only_set_description: "desc_only s (set_description s a v)"
  by (simp add: desc_only_def set_description_def)

lemma parens_after: "after (parens r) = after r"
  by (cases r) (auto simp: parens_def)

lemma getDescription_desc_only:
  "after (getDescription n s a) = Some t \<Longrightarrow> desc_only s t"
proof (induction n arbitrary: s a t)
  case 0
  then show ?case by simp
next
  case (Suc n)
  let ?f = "\<lambda>s1 p. case p of None \<Rightarrow> Throw undefined_read s1
              | Some c \<Rightarrow> if wide s1 c then parens (getDescription n s1 c) else getDescription n s1 c"
  have step: "\<And>s1 p t1. after (?f s1 p) = Some t1 \<Longrightarrow> desc_only s1 t1"
    using Suc.IH by (auto simp: parens_after desc_only_refl split: option.splits if_splits)
  have loop: "\<And>s1 cs t1. after (map_result ?f s1 cs) = Some t1 \<Longrightarrow> desc_only s1 t1"
    by (rule map_result_after[where R = desc_only and f = ?f])
       (auto intro: desc_only_refl desc_only_trans step)
  show ?case
  proof (cases "truthy (description (heap s a)) \<or> recursing (heap s a)")
    case True
    with Suc.prems show ?thesis by (auto simp: desc_only_refl split: if_splits)
  next
    case False
    show ?thesis
    proof (cases "children (heap s a)")
      case None
      with False Suc.prems show ?thesis by (auto simp: desc_only_set_recursing)
    next
      case (Some cs)
      have s1: "desc_only s (set_recursing s a True)" by (rule desc_only_set_recursing)
      show ?thesis
      proof (cases "map_result ?f (set_recursing s a True) cs")
        case (Return list s2)
        then have d2: "desc_only s s2" using loop[of "set_recursing s a True" cs s2] s1 desc_only_trans by auto
        have d3: "desc_only s (set_recursing s2 a False)"
          using d2 desc_only_set_recursing desc_only_trans by blast
        show ?thesis
        proof (cases "options (heap s2 a)")
          case None
          with False Some Return Suc.prems d3 show ?thesis by auto
        next
          case (Some opts)
          with False \<open>children (heap s a) = Some cs\<close> Return Suc.prems
          have "\<exists>d. t = set_description (set_recursing s2 a False) a d"
            by (auto simp: Let_def)
          then show ?thesis using d3 desc_only_set_description desc_only_trans by blast
        qed
      next
        case (Throw e s2)
        then have d2: "desc_only s s2" using loop[of "set_recursing s a True" cs s2] s1 desc_only_trans by auto
        with False Some Throw Suc.prems show ?thesis by auto
      next
        case Abort
        with False Some Suc.prems show ?thesis by auto
      qed
    qed
  qed
qed

lemma desc_only_ext: "desc_only s t \<Longrightarrow> ext s t"
  by (simp add: desc_only_def ext_def)

lemma generate_ext:
  assumes "ext s0 s" and "a < nparsers s0 \<Longrightarrow> children (heap s0 a) = None"
    and "after (generate s a) = Some t"
  shows "ext s0 t"
  using assms
  by (auto simp: generate_def split: option.splits intro!: ext_upd)

lemma register_ext:
  assumes "ext s0 s" and "a < nparsers s0 \<Longrightarrow> children (heap s0 a) = None"
    and "after (register s a) = Some t"
  shows "ext s0 t"
proof (cases "cacheKey (heap s a)")
  case None
  with assms show ?thesis by (auto simp: register_def intro: generate_ext)
next
  case (Some k)
  show ?thesis
  proof (cases "k = []")
    case True
    with Some assms show ?thesis by (auto simp: register_def intro: generate_ext)
  next
    case False
    show ?thesis
    proof (cases "map_of (cache s) k")
      case None
      have "ext s0 (s\<lparr>cache := (k, a) # cache s\<rparr>)" using ext_cache[OF assms(1) None] .
      moreover have "after (generate (s\<lparr>cache := (k, a) # cache s\<rparr>) a) = Some t"
        using assms(3) Some False None by (simp add: register_def)
      ultimately show ?thesis using assms(2) generate_ext by blast
    next
      case (Some r)
      with \<open>cacheKey (heap s a) = Some k\<close> False assms show ?thesis by (auto simp: register_def)
    qed
  qed
qed

lemma compute_key_ext:
  assumes "ext s0 s" and "a < nparsers s0 \<Longrightarrow> children (heap s0 a) = None"
    and "after (compute_key q s a) = Some t"
  shows "ext s0 t"
  using assms
  by (auto simp: compute_key_def set_cacheKey_def split: sum.splits if_splits intro!: ext_upd)

lemma complete_ext:
  assumes e: "ext s0 s" and c: "a < nparsers s0 \<Longrightarrow> children (heap s0 a) = None"
    and a: "after (complete n q s a) = Some t"
  shows "ext s0 t"
proof (cases "getDescription n s a")
  case (Return d s1)
  then have "desc_only s s1" using getDescription_desc_only[of n s a s1] by simp
  then have e1: "ext s0 s1" using e desc_only_ext ext_trans by blast
  show ?thesis
  proof (cases "options (heap s1 a)")
    case None
    with a Return e1 show ?thesis by (simp add: complete_def)
  next
    case (Some opts)
    show ?thesis
    proof (cases "cacheable opts")
      case True
      show ?thesis
      proof (cases "compute_key q s1 a")
        case (Return u s2)
        then have "ext s0 s2" using compute_key_ext[OF e1 c, of q s2] by simp
        moreover have "after (register s2 a) = Some t"
          using a \<open>getDescription n s a = Return d s1\<close> Some True Return by (simp add: complete_def)
        ultimately show ?thesis using register_ext c by blast
      next
        case (Throw x s2)
        then have "ext s0 s2" using compute_key_ext[OF e1 c, of q s2] by simp
        then show ?thesis using a \<open>getDescription n s a = Return d s1\<close> Some True Throw
          by (simp add: complete_def)
      next
        case Abort
        then show ?thesis using a \<open>getDescription n s a = Return d s1\<close> Some True
          by (simp add: complete_def)
      qed
    next
      case False
      then have "after (generate s1 a) = Some t"
        using a Return Some by (simp add: complete_def)
      then show ?thesis using generate_ext e1 c by blast
    qed
  qed
next
  case (Throw x s1)
  then have "desc_only s s1" using getDescription_desc_only[of n s a s1] by simp
  then have e1: "ext s0 s1" using e desc_only_ext ext_trans by blast
  with a Throw show ?thesis by (simp add: complete_def)
next
  case Abort
  with a show ?thesis by (simp add: complete_def)
qed

lemma map_unlazy_ext: "after (map_result unlazy w ls) = Some w' \<Longrightarrow> ext (fst w) (fst w')"
  by (rule map_result_after[where R = "\<lambda>w w'. ext (fst w) (fst w')" and f = unlazy])
     (auto intro: ext_refl ext_trans unlazy_ext)

lemma unlazy_children_ext:
  assumes "after (unlazy_children w a) = Some w'"
    and "a < nparsers (fst w) \<Longrightarrow> children (heap (fst w) a) = None"
  shows "ext (fst w) (fst w')"
proof (cases "options (heap (fst w) a)")
  case None
  with assms show ?thesis by (auto simp: unlazy_children_def ext_refl)
next
  case (Some opts)
  let ?ls = "case o_children opts of None \<Rightarrow> [] | Some ls \<Rightarrow> ls"
  show ?thesis
  proof (cases "map_result unlazy w ?ls")
    case (Return cs w1)
    then have "ext (fst w) (fst w1)" using map_unlazy_ext[of w ?ls w1] by simp
    then have "ext (fst w) (set_children (fst w1) a (map Some cs))"
      unfolding set_children_def using assms(2) by (auto intro!: ext_upd)
    then show ?thesis using assms(1) Some Return
      by (cases w1) (auto simp: unlazy_children_def)
  next
    case (Throw e w1)
    then have "ext (fst w) (fst w1)" using map_unlazy_ext[of w ?ls w1] by simp
    then show ?thesis using assms(1) Some Throw by (auto simp: unlazy_children_def)
  next
    case Abort
    then show ?thesis using assms(1) Some by (auto simp: unlazy_children_def)
  qed
qed

lemma annotate_after: "after (annotate nm r) = after r"
  by (cases r) (auto simp: annotate_def)

lemma with_fc_after: "after (with_fc fc r) = Some w \<longleftrightarrow> (\<exists>s. after r = Some s \<and> w = (s, fc))"
  by (cases r) (auto simp: with_fc_def)

lemma resolve_ext: "after (resolve n q w a) = Some w' \<Longrightarrow> ext (fst w) (fst w')"
proof (induction n arbitrary: w a w')
  case 0
  then show ?case by simp
next
  case (Suc n)
  show ?case
  proof (cases "truthy (cacheKey (heap (fst w) a)) \<or> children (heap (fst w) a) \<noteq> None")
    case True
    with Suc.prems show ?thesis by (auto simp: ext_refl split: if_splits)
  next
    case False
    then have c: "children (heap (fst w) a) = None" by simp
    let ?nm = "name (heap (fst w) a)"
    show ?thesis
    proof (cases "unlazy_children w a")
      case (Return cs w1)
      then have e1: "ext (fst w) (fst w1)" using unlazy_children_ext[of w a w1] c by simp
      have loop: "\<And>w2. after (map_result (resolve n q) w1 cs) = Some w2 \<Longrightarrow> ext (fst w1) (fst w2)"
        by (rule map_result_after[where R = "\<lambda>w w'. ext (fst w) (fst w')" and f = "resolve n q"])
           (auto intro: ext_refl ext_trans Suc.IH)
      show ?thesis
      proof (cases "map_result (resolve n q) w1 cs")
        case (Return rs w2)
        obtain s2 fc2 where w2: "w2 = (s2, fc2)" by (cases w2)
        have e2: "ext (fst w) s2" using loop[of w2] Return e1 w2 ext_trans by auto
        have e3: "ext (fst w) (set_children s2 a rs)"
          unfolding set_children_def using e2 c by (auto intro!: ext_upd)
        have "after (with_fc fc2 (complete n q (set_children s2 a rs) a)) = Some w'"
          using Suc.prems False \<open>unlazy_children w a = Return cs w1\<close> Return w2
          by (simp add: annotate_def)
        then obtain s3 where "after (complete n q (set_children s2 a rs) a) = Some s3" "w' = (s3, fc2)"
          by (auto simp: with_fc_after)
        then show ?thesis using complete_ext[OF e3 _ ] c by auto
      next
        case (Throw e w2)
        have e2: "ext (fst w) (fst w2)" using loop[of w2] Throw e1 ext_trans by auto
        then show ?thesis using Suc.prems False \<open>unlazy_children w a = Return cs w1\<close> Throw
          by (simp add: annotate_def)
      next
        case Abort
        then show ?thesis using Suc.prems False \<open>unlazy_children w a = Return cs w1\<close>
          by (simp add: annotate_def)
      qed
    next
      case (Throw e w1)
      then have e1: "ext (fst w) (fst w1)" using unlazy_children_ext[of w a w1] c by simp
      then show ?thesis using Suc.prems False Throw by (simp add: annotate_def)
    next
      case Abort
      then show ?thesis using Suc.prems False by (simp add: annotate_def)
    qed
  qed
qed

lemma alloc_only_refl: "alloc_only s s"
  by (simp add: alloc_only_def)

lemma alloc_only_trans: "alloc_only s t \<Longrightarrow> alloc_only t u \<Longrightarrow> alloc_only s u"
  by (auto simp: alloc_only_def)

lemma tag_of_alloc_only: "tag_of s f = (k, s1) \<Longrightarrow> alloc_only s s1"
  by (auto simp: tag_of_def alloc_only_def split: option.splits if_splits)

lemma invoke_alloc_only: "after (invoke s f) = Some s1 \<Longrightarrow> alloc_only s s1"
  by (auto simp: invoke_def alloc_only_def new_parser_def Let_def split: thunk_body.splits)

lemma unlazy_alloc_only: "after (unlazy w x) = Some w' \<Longrightarrow> alloc_only (fst w) (fst w')"
proof (cases w)
  case (Pair s fc)
  assume a: "after (unlazy w x) = Some w'"
  show ?thesis
  proof (cases x)
    case (Value v)
    with a Pair show ?thesis by (auto dest!: finish_unlazy_after simp: alloc_only_refl)
  next
    case (Thunk f)
    obtain k s1 where t: "tag_of s f = (k, s1)" by (cases "tag_of s f")
    have e1: "alloc_only s s1" using tag_of_alloc_only[OF t] .
    show ?thesis
    proof (cases "fc_hit fc k")
      case (Some v)
      with a Pair Thunk t have "w' = (s1, fc)" by (auto dest!: finish_unlazy_after)
      with e1 Pair show ?thesis by simp
    next
      case None
      show ?thesis
      proof (cases "invoke s1 f")
        case (Return v s2)
        with a Pair Thunk t None have "w' = (s2, (k, v) # fc)" by (auto dest!: finish_unlazy_after)
        moreover have "alloc_only s1 s2" using invoke_alloc_only[of s1 f s2] Return by simp
        ultimately show ?thesis using e1 Pair alloc_only_trans by auto
      next
        case (Throw e s2)
        with a Pair Thunk t None have "w' = (s2, fc)" by auto
        moreover have "alloc_only s1 s2" using invoke_alloc_only[of s1 f s2] Throw by simp
        ultimately show ?thesis using e1 Pair alloc_only_trans by auto
      next
        case Abort
        with a Pair Thunk t None show ?thesis by auto
      qed
    qed
  qed
qed

lemma map_unlazy_alloc_only:
  "after (map_result unlazy w ls) = Some w' \<Longrightarrow> alloc_only (fst w) (fst w')"
  by (rule map_result_after[where R = "\<lambda>w w'. alloc_only (fst w) (fst w')" and f = unlazy])
     (auto intro: alloc_only_refl alloc_only_trans unlazy_alloc_only)

lemma settled_again: "settled s a r \<Longrightarrow> resolve (Suc m) q (s, fc) a = Return r (s, fc)"
  by (auto simp: settled_def split: option.splits if_splits)

lemma generate_settled:
  assumes "generate s a = Return r t" and "children (heap s a) \<noteq> None"
    and "\<not> truthy (cacheKey (heap s a)) \<or> map_of (cache s) (the (cacheKey (heap s a))) = Some a"
  shows "settled t a r"
  using assms by (auto simp: generate_def settled_def split: option.splits)

lemma register_settled:
  assumes "register s a = Return r t" and "children (heap s a) \<noteq> None"
  shows "settled t a r"
proof (cases "cacheKey (heap s a)")
  case None
  with assms show ?thesis by (auto simp: register_def intro: generate_settled)
next
  case (Some k)
  show ?thesis
  proof (cases "k = []")
    case True
    with Some assms show ?thesis by (auto simp: register_def intro: generate_settled)
  next
    case False
    show ?thesis
    proof (cases "map_of (cache s) k")
      case None
      with Some False assms have "generate (s\<lparr>cache := (k, a) # cache s\<rparr>) a = Return r t"
        by (simp add: register_def)
      then show ?thesis using assms(2) Some
        by (intro generate_settled[of "s\<lparr>cache := (k, a) # cache s\<rparr>" a r t]) auto
    next
      case (Some r')
      with \<open>cacheKey (heap s a) = Some k\<close> False assms show ?thesis
        by (auto simp: register_def settled_def)
    qed
  qed
qed

lemma compute_key_children:
  "after (compute_key q s a) = Some t \<Longrightarrow> children (heap t a) = children (heap s a)"
  by (auto simp: compute_key_def set_cacheKey_def split: sum.splits if_splits)

lemma complete_settled:
  assumes "complete n q s a = Return r t" and "children (heap s a) \<noteq> None"
    and "\<not> truthy (cacheKey (heap s a))"
  shows "settled t a r"
proof -
  from assms(1) obtain d s1 where g: "getDescription n s a = Return d s1"
    by (auto simp: complete_def split: result.splits)
  then have d: "desc_only s s1" using getDescription_desc_only[of n s a s1] by simp
  then have c1: "children (heap s1 a) \<noteq> None" and k1: "\<not> truthy (cacheKey (heap s1 a))"
    using assms(2,3) by (auto simp: desc_only_def)
  from assms(1) g obtain opts where o: "options (heap s1 a) = Some opts"
    by (auto simp: complete_def split: option.splits)
  show ?thesis
  proof (cases "cacheable opts")
    case True
    with assms(1) g o obtain u s2 where ck: "compute_key q s1 a = Return u s2" and rg: "register s2 a = Return r t"
      by (auto simp: complete_def split: result.splits)
    have "children (heap s2 a) \<noteq> None" using compute_key_children[of q s1 a s2] ck c1 by simp
    then show ?thesis using register_settled rg by blast
  next
    case False
    with assms(1) g o have "generate s1 a = Return r t" by (simp add: complete_def)
    then show ?thesis using generate_settled c1 k1 by blast
  qed
qed

lemma map_resolve_ext:
  "after (map_result (resolve n q) w cs) = Some w' \<Longrightarrow> ext (fst w) (fst w')"
  by (rule map_result_after[where R = "\<lambda>w w'. ext (fst w) (fst w')" and f = "resolve n q"])
     (auto intro: ext_refl ext_trans resolve_ext)

lemma unlazy_children_Return:
  assumes "unlazy_children w a = Return cs w1" and "a < nparsers (fst w)"
  shows "children (heap (fst w1) a) = Some (map Some cs)
       \<and> cacheKey (heap (fst w1) a) = cacheKey (heap (fst w) a)
       \<and> a < nparsers (fst w1)"
proof -
  from assms(1) obtain opts where o: "options (heap (fst w) a) = Some opts"
    by (auto simp: unlazy_children_def split: option.splits)
  let ?ls = "case o_children opts of None \<Rightarrow> [] | Some ls \<Rightarrow> ls"
  from assms(1) o obtain s1 fc1 where m: "map_result unlazy w ?ls = Return cs (s1, fc1)"
    and w1: "w1 = (set_children s1 a (map Some cs), fc1)"
    by (auto simp: unlazy_children_def split: result.splits)
  have "alloc_only (fst w) s1" using map_unlazy_alloc_only[of w ?ls "(s1, fc1)"] m by simp
  then show ?thesis using w1 assms(2) by (auto simp: alloc_only_def set_children_def)
qed

lemma resolve_settled:
  assumes "resolve n q w a = Return r w'" and "a < nparsers (fst w)"
  shows "settled (fst w') a r"
proof (cases n)
  case 0
  with assms show ?thesis by simp
next
  case (Suc m)
  show ?thesis
  proof (cases "truthy (cacheKey (heap (fst w) a))")
    case True
    with assms Suc show ?thesis by (auto simp: settled_def split: option.splits)
  next
    case nk: False
    show ?thesis
    proof (cases "children (heap (fst w) a) \<noteq> None")
      case True
      with assms Suc nk show ?thesis by (auto simp: settled_def split: option.splits)
    next
      case False
      let ?nm = "name (heap (fst w) a)"
      from assms(1) Suc nk False obtain cs w1 where u: "unlazy_children w a = Return cs w1"
        by (auto simp: annotate_def split: result.splits)
      from assms(1) Suc nk False u obtain rs s2 fc2 where
        m: "map_result (resolve m q) w1 cs = Return rs (s2, fc2)"
        and c: "with_fc fc2 (complete m q (set_children s2 a rs) a) = Return r w'"
        by (auto simp: annotate_def split: result.splits)
      have u1: "children (heap (fst w1) a) \<noteq> None" "cacheKey (heap (fst w1) a) = cacheKey (heap (fst w) a)"
        "a < nparsers (fst w1)"
        using unlazy_children_Return[OF u assms(2)] by auto
      have "ext (fst w1) s2" using map_resolve_ext[of m q w1 cs "(s2, fc2)"] m by simp
      then have k2: "cacheKey (heap s2 a) = cacheKey (heap (fst w) a)"
        using u1 by (auto simp: ext_def)
      from c obtain t where ct: "complete m q (set_children s2 a rs) a = Return r t" and w': "w' = (t, fc2)"
        by (auto simp: with_fc_def split: result.splits)
      have "settled t a r"
        using ct k2 nk by (intro complete_settled[of m q "set_children s2 a rs" a r t])
          (auto simp: set_children_def)
      then show ?thesis using w' by simp
    qed
  qed
qed

lemma resolve_twice:
  assumes "resolve n q w a = Return r w'" and "a < nparsers (fst w)"
  shows "resolve (Suc m) q (fst w', fc) a = Return r (fst w', fc)"
  using resolve_settled[OF assms] by (rule settled_again)

lemma valid_lazy1_mono: "valid_lazy1 s x \<Longrightarrow> grows s t \<Longrightarrow> valid_lazy1 t x"
  by (cases x) (auto simp: grows_def)

lemma valid_lazy2_mono: "valid_lazy2 s x \<Longrightarrow> grows s t \<Longrightarrow> valid_lazy2 t x"
  by (cases x) (auto simp: list_all_iff intro: valid_lazy1_mono)

lemma valid_lazy_mono: "valid_lazy s x \<Longrightarrow> grows s t \<Longrightarrow> valid_lazy t x"
  by (cases x) (auto simp: grows_def intro: valid_lazy2_mono)

lemma valid_options_mono: "valid_options s x \<Longrightarrow> grows s t \<Longrightarrow> valid_options t x"
  by (auto simp: valid_options_def list_all_iff split: option.splits intro: valid_lazy_mono)

lemma valid_body_mono: "valid_body s x \<Longrightarrow> grows s t \<Longrightarrow> valid_body t x"
  by (cases x) (auto intro: valid_lazy2_mono valid_options_mono)

lemma valid_ref_mono: "valid_ref s x \<Longrightarrow> grows s t \<Longrightarrow> valid_ref t x"
  by (cases x) (auto simp: grows_def)

lemma valid_parser_mono: "valid_parser s p \<Longrightarrow> grows s t \<Longrightarrow> valid_parser t p"
  by (auto simp: valid_parser_def list_all_iff split: option.splits
      intro: valid_options_mono valid_ref_mono)

lemma ext_grows: "ext s t \<Longrightarrow> grows s t"
  by (simp add: ext_def grows_def)

lemma wf_init: "wf init_state"
  by (simp add: wf_def init_state_def ids_ok_def)

lemma wf_new_parser:
  assumes "wf s" and "valid_options s opts"
  shows "wf (snd (new_parser s nm opts g))"
proof -
  let ?t = "snd (new_parser s nm opts g)"
  have g: "grows s ?t" by (simp add: grows_def new_parser_def)
  have 1: "\<forall>a<nparsers ?t. valid_parser ?t (heap ?t a) \<and> keyed ?t a"
  proof (intro allI impI)
    fix a assume "a < nparsers ?t"
    then consider "a = nparsers s" | "a < nparsers s" by (auto simp: new_parser_def less_Suc_eq)
    then show "valid_parser ?t (heap ?t a) \<and> keyed ?t a"
    proof cases
      case 1
      have "valid_options ?t opts" using assms(2) g by (rule valid_options_mono)
      then show ?thesis using 1 by (simp add: new_parser_def valid_parser_def keyed_def)
    next
      case 2
      then have "valid_parser s (heap s a)" "keyed s a" using assms(1) by (auto simp: wf_def)
      then have "valid_parser ?t (heap s a)" "keyed ?t a" using g 2
        by (auto intro: valid_parser_mono simp: keyed_def new_parser_def)
      then show ?thesis using 2 by (simp add: new_parser_def)
    qed
  qed
  have 2: "\<forall>f<nfuns ?t. valid_body ?t (body (funs ?t f))"
    using assms(1) g by (auto simp: wf_def new_parser_def intro: valid_body_mono)
  have 3: "list_all (canonical ?t) (cache ?t)"
    using assms(1) by (auto simp: wf_def list_all_iff canonical_def new_parser_def)
  have 4: "ids_ok ?t"
    using assms(1) unfolding wf_def ids_ok_def new_parser_def
    by (auto simp: less_Suc_eq)
  from 1 2 3 4 show ?thesis by (simp add: wf_def)
qed

lemma wf_funs_upd:
  assumes "wf s" and "f < nfuns s \<Longrightarrow> valid_body s (body th)"
  shows "wf (s\<lparr>funs := (funs s)(f := th)\<rparr>)"
proof -
  let ?t = "s\<lparr>funs := (funs s)(f := th)\<rparr>"
  have g: "grows s ?t" by (simp add: grows_def)
  have 1: "\<forall>a<nparsers ?t. valid_parser ?t (heap ?t a) \<and> keyed ?t a"
    using assms(1) g by (auto simp: wf_def keyed_def split: option.splits intro: valid_parser_mono)
  have 2: "\<forall>f<nfuns ?t. valid_body ?t (body (funs ?t f))"
    using assms g by (auto simp: wf_def intro: valid_body_mono)
  have 3: "list_all (canonical ?t) (cache ?t)"
    using assms(1) by (auto simp: wf_def list_all_iff canonical_def)
  have 4: "ids_ok ?t" using assms(1) by (simp add: wf_def ids_ok_def)
  from 1 2 3 4 show ?thesis by (simp add: wf_def)
qed

lemma wf_eq:
  assumes "wf s" and "heap t = heap s" and "nparsers t = nparsers s"
    and "ParserId t = ParserId s" and "nfuns t = nfuns s" and "cache t = cache s"
    and "\<forall>f<nfuns s. body (funs t f) = body (funs s f)"
  shows "wf t"
proof -
  have g: "grows s t" using assms by (simp add: grows_def)
  have 1: "\<forall>a<nparsers t. valid_parser t (heap t a) \<and> keyed t a"
    using assms g by (auto simp: wf_def keyed_def intro: valid_parser_mono)
  have 2: "\<forall>f<nfuns t. valid_body t (body (funs t f))"
    using assms g by (auto simp: wf_def intro: valid_body_mono)
  have 3: "list_all (canonical t) (cache t)"
    using assms by (auto simp: wf_def list_all_iff canonical_def)
  have 4: "ids_ok t" using assms by (simp add: wf_def ids_ok_def)
  from 1 2 3 4 show ?thesis by (simp add: wf_def)
qed

lemma wf_new_fun:
  assumes "wf s" and "valid_body s b"
  shows "wf (snd (new_fun s b))"
proof -
  let ?t = "snd (new_fun s b)"
  have g: "grows s ?t" by (simp add: grows_def new_fun_def)
  have 1: "\<forall>a<nparsers ?t. valid_parser ?t (heap ?t a) \<and> keyed ?t a"
    using assms(1) g by (auto simp: wf_def keyed_def new_fun_def split: option.splits intro: valid_parser_mono)
  have 2: "\<forall>f<nfuns ?t. valid_body ?t (body (funs ?t f))"
    using assms g by (auto simp: wf_def new_fun_def less_Suc_eq intro: valid_body_mono)
  have 3: "list_all (canonical ?t) (cache ?t)"
    using assms(1) by (auto simp: wf_def list_all_iff canonical_def new_fun_def)
  have 4: "ids_ok ?t" using assms(1) by (simp add: wf_def ids_ok_def new_fun_def)
  from 1 2 3 4 show ?thesis by (simp add: wf_def)
qed

lemma wf_rebind: "wf s \<Longrightarrow> valid_body s b \<Longrightarrow> wf (rebind s f b)"
  unfolding rebind_def by (rule wf_funs_upd) auto

lemma wf_tag_of: "tag_of s f = (k, s1) \<Longrightarrow> wf s \<Longrightarrow> wf s1"
  by (auto simp: tag_of_def split: option.splits if_splits intro!: wf_eq[where s = s])

lemma wf_nparsers_valid_body: "wf s \<Longrightarrow> f < nfuns s \<Longrightarrow> valid_body s (body (funs s f))"
  by (simp add: wf_def)

lemma wf_invoke:
  assumes "wf s" and "f < nfuns s" and "after (invoke s f) = Some s1"
  shows "wf s1 \<and> (\<forall>v. invoke s f = Return v s1 \<longrightarrow> valid_lazy2 s1 v)"
proof -
  let ?s1 = "s\<lparr>funs := (funs s)(f := (funs s f)\<lparr>calls := Suc (calls (funs s f))\<rparr>)\<rparr>"
  have w1: "wf ?s1" using assms(1) by (auto intro!: wf_eq[where s = s])
  have vb: "valid_body s (body (funs s f))" using assms(1,2) by (rule wf_nparsers_valid_body)
  have g1: "grows s ?s1" by (simp add: grows_def)
  show ?thesis
  proof (cases "body (funs s f)")
    case (Yields v)
    with assms(3) have "s1 = ?s1" by (simp add: invoke_def Let_def)
    moreover have "valid_lazy2 ?s1 v" using vb Yields g1 by (auto intro: valid_lazy2_mono)
    ultimately show ?thesis using w1 Yields by (auto simp: invoke_def Let_def)
  next
    case (Raises m)
    with assms(3) have "s1 = ?s1" by (simp add: invoke_def Let_def)
    then show ?thesis using w1 Raises by (auto simp: invoke_def Let_def)
  next
    case (Builds nm opts g)
    have vo: "valid_options ?s1 opts" using vb Builds g1 by (auto intro: valid_options_mono)
    have s1: "s1 = snd (new_parser ?s1 nm opts g)"
      using assms(3) Builds by (simp add: invoke_def Let_def split: prod.splits)
    have "wf s1" unfolding s1 using w1 vo by (rule wf_new_parser)
    moreover have "invoke s f = Return (Single (LParser (nparsers s))) s1"
      using Builds s1 by (simp add: invoke_def Let_def new_parser_def)
    moreover have "nparsers s < nparsers s1" using s1 by (simp add: new_parser_def)
    ultimately show ?thesis by auto
  qed
qed

lemma finish_unlazy_valid:
  "finish_unlazy v w = Return c w' \<Longrightarrow> valid_lazy2 (fst w) v \<Longrightarrow> c < nparsers (fst w)"
  by (cases v rule: implicits.cases) (auto simp: finish_unlazy_def)

lemma wfw_grows:
  assumes "wfw (s, fc)" and "wf t" and "grows s t"
  shows "wfw (t, fc)"
  using assms by (auto simp: wfw_def list_all_iff intro: valid_lazy2_mono)

lemma fc_hit_valid: "fc_hit fc k = Some v \<Longrightarrow> wfw (s, fc) \<Longrightarrow> valid_lazy2 s v"
  by (auto simp: fc_hit_def wfw_def list_all_iff split: option.splits if_splits dest!: map_of_SomeD)

lemma unlazy_wfw:
  assumes "wfw w" and "valid_lazy (fst w) x" and a: "after (unlazy w x) = Some w'"
  shows "wfw w' \<and> (\<forall>c. unlazy w x = Return c w' \<longrightarrow> c < nparsers (fst w'))"
proof (cases w)
  case (Pair s fc)
  show ?thesis
  proof (cases x)
    case (Value v)
    with a Pair have "w' = w" by (auto dest!: finish_unlazy_after)
    then show ?thesis using assms Value Pair by (auto dest: finish_unlazy_valid)
  next
    case (Thunk f)
    then have f: "f < nfuns s" using assms(2) Pair by simp
    obtain k s1 where t: "tag_of s f = (k, s1)" by (cases "tag_of s f")
    have w1: "wf s1" using wf_tag_of[OF t] assms(1) Pair by (simp add: wfw_def)
    have e1: "ext s s1" using tag_of_ext[OF t] .
    have ww1: "wfw (s1, fc)" using wfw_grows[of s fc s1] assms(1) Pair w1 ext_grows[OF e1] by simp
    have f1: "f < nfuns s1" using e1 f by (simp add: ext_def)
    show ?thesis
    proof (cases "fc_hit fc k")
      case (Some v)
      with a Pair Thunk t have w': "w' = (s1, fc)" by (auto dest!: finish_unlazy_after)
      have "valid_lazy2 s1 v" using fc_hit_valid[OF Some ww1] .
      then show ?thesis using w' ww1 Pair Thunk t Some by (auto dest: finish_unlazy_valid)
    next
      case None
      show ?thesis
      proof (cases "invoke s1 f")
        case (Return v s2)
        with a Pair Thunk t None have w': "w' = (s2, (k, v) # fc)" by (auto dest!: finish_unlazy_after)
        have i: "wf s2" "valid_lazy2 s2 v" using wf_invoke[OF w1 f1, of s2] Return by auto
        have "ext s1 s2" using invoke_ext[of s1 f s2] Return by simp
        then have "wfw (s2, fc)" using wfw_grows[OF ww1 i(1)] ext_grows by blast
        then have "wfw (s2, (k, v) # fc)" using i(2) by (simp add: wfw_def)
        then show ?thesis using w' i(2) Pair Thunk t None Return by (auto dest: finish_unlazy_valid)
      next
        case (Throw e s2)
        with a Pair Thunk t None have w': "w' = (s2, fc)" by auto
        have i: "wf s2" using wf_invoke[OF w1 f1, of s2] Throw by auto
        have "ext s1 s2" using invoke_ext[of s1 f s2] Throw by simp
        then have "wfw (s2, fc)" using wfw_grows[OF ww1 i(1)] ext_grows by blast
        then show ?thesis using w' Pair Thunk t None Throw by auto
      next
        case Abort
        with a Pair Thunk t None show ?thesis by auto
      qed
    qed
  qed
qed

lemma map_result_inv:
  assumes Gr: "\<And>s. G s s" and Gt: "\<And>s t u. G s t \<Longrightarrow> G t u \<Longrightarrow> G s u"
    and Pm: "\<And>s t x. P s x \<Longrightarrow> G s t \<Longrightarrow> P t x"
    and Qm: "\<And>s t y. Q s y \<Longrightarrow> G s t \<Longrightarrow> Q t y"
    and step: "\<And>s x s'. I s \<Longrightarrow> P s x \<Longrightarrow> after (f s x) = Some s' \<Longrightarrow>
                 I s' \<and> G s s' \<and> (\<forall>y. f s x = Return y s' \<longrightarrow> Q s' y)"
  shows "I s \<Longrightarrow> list_all (P s) xs \<Longrightarrow> after (map_result f s xs) = Some s' \<Longrightarrow>
           I s' \<and> G s s' \<and> (\<forall>ys. map_result f s xs = Return ys s' \<longrightarrow> list_all (Q s') ys)"
proof (induction xs arbitrary: s)
  case Nil
  then show ?case using Gr by simp
next
  case (Cons x xs)
  show ?case
  proof (cases "f s x")
    case (Return y s1)
    have 1: "I s1" "G s s1" "Q s1 y"
      using step[of s x s1] Cons.prems(1,2) Return by auto
    have 2: "after (map_result f s1 xs) = Some s'"
      using Cons.prems(3) Return by (auto split: result.splits)
    have 3: "list_all (P s1) xs" using Cons.prems(2) 1(2) Pm by (auto simp: list_all_iff)
    have 4: "I s'" "G s1 s'" "\<forall>ys. map_result f s1 xs = Return ys s' \<longrightarrow> list_all (Q s') ys"
      using Cons.IH[OF 1(1) 3 2] by auto
    have "Q s' y" using 1(3) 4(2) Qm by blast
    then show ?thesis using 4 1(2) Gt Return by (auto split: result.splits)
  next
    case (Throw e s1)
    then show ?thesis using Cons.prems step[of s x s1] by auto
  next
    case Abort
    then show ?thesis using Cons.prems by simp
  qed
qed

lemma map_unlazy_wfw:
  assumes "wfw w" and "list_all (valid_lazy (fst w)) ls" and "after (map_result unlazy w ls) = Some w'"
  shows "wfw w' \<and> (\<forall>cs. map_result unlazy w ls = Return cs w' \<longrightarrow> list_all (\<lambda>c. c < nparsers (fst w')) cs)"
proof -
  have "wfw w' \<and> grows (fst w) (fst w') \<and>
        (\<forall>cs. map_result unlazy w ls = Return cs w' \<longrightarrow> list_all (\<lambda>c. c < nparsers (fst w')) cs)"
  proof (rule map_result_inv[where I = wfw and G = "\<lambda>w w'. grows (fst w) (fst w')"
        and P = "\<lambda>w. valid_lazy (fst w)" and Q = "\<lambda>w c. c < nparsers (fst w)" and f = unlazy])
    show "\<And>s. grows (fst s) (fst s)" by (simp add: grows_def)
    show "\<And>s t u. grows (fst s) (fst t) \<Longrightarrow> grows (fst t) (fst u) \<Longrightarrow> grows (fst s) (fst u)"
      by (simp add: grows_def)
    show "\<And>s t x. valid_lazy (fst s) x \<Longrightarrow> grows (fst s) (fst t) \<Longrightarrow> valid_lazy (fst t) x"
      by (rule valid_lazy_mono)
    show "\<And>s t y. y < nparsers (fst s) \<Longrightarrow> grows (fst s) (fst t) \<Longrightarrow> y < nparsers (fst t)"
      by (simp add: grows_def)
    show "\<And>s x s'. wfw s \<Longrightarrow> valid_lazy (fst s) x \<Longrightarrow> after (unlazy s x) = Some s' \<Longrightarrow>
        wfw s' \<and> grows (fst s) (fst s') \<and> (\<forall>y. unlazy s x = Return y s' \<longrightarrow> y < nparsers (fst s'))"
      using unlazy_wfw unlazy_ext ext_grows by blast
    show "wfw w" by fact
    show "list_all (valid_lazy (fst w)) ls" by fact
    show "after (map_result unlazy w ls) = Some w'" by fact
  qed
  then show ?thesis by simp
qed

lemma wf_node_upd:
  assumes "wf s" and "a < nparsers s" and "parser_id p = parser_id (heap s a)"
    and "valid_parser s p" and "cacheKey p = cacheKey (heap s a)"
    and "children (heap s a) \<noteq> None \<Longrightarrow> children p \<noteq> None"
  shows "wf (s\<lparr>heap := (heap s)(a := p)\<rparr>)"
proof -
  let ?t = "s\<lparr>heap := (heap s)(a := p)\<rparr>"
  have g: "grows s ?t" by (simp add: grows_def)
  have 1: "\<forall>b<nparsers ?t. valid_parser ?t (heap ?t b) \<and> keyed ?t b"
    using assms g by (auto simp: wf_def keyed_def intro: valid_parser_mono)
  have 2: "\<forall>f<nfuns ?t. valid_body ?t (body (funs ?t f))"
    using assms(1) g by (auto simp: wf_def intro: valid_body_mono)
  have 3: "list_all (canonical ?t) (cache ?t)"
    using assms by (auto simp: wf_def list_all_iff canonical_def)
  have 4: "ids_ok ?t" using assms(1,3) by (auto simp: wf_def ids_ok_def)
  from 1 2 3 4 show ?thesis by (simp add: wf_def)
qed

lemma wf_valid_parser: "wf s \<Longrightarrow> a < nparsers s \<Longrightarrow> valid_parser s (heap s a)"
  by (simp add: wf_def)

lemma wf_set_children:
  assumes "wf s" and "a < nparsers s" and "list_all (valid_ref s) cs"
  shows "wf (set_children s a cs)"
  unfolding set_children_def
  using assms wf_valid_parser[OF assms(1,2)]
  by (intro wf_node_upd) (auto simp: valid_parser_def)

lemma wf_desc_only:
  assumes "desc_only s t" and "wf s"
  shows "wf t"
proof -
  have g: "grows s t" using assms(1) by (simp add: grows_def desc_only_def)
  have 1: "\<forall>b<nparsers t. valid_parser t (heap t b) \<and> keyed t b"
  proof (intro allI impI)
    fix b assume "b < nparsers t"
    then have "valid_parser s (heap s b)" "keyed s b" using assms by (auto simp: wf_def desc_only_def)
    then have "valid_parser s (heap t b)" "keyed t b"
      using assms(1) by (auto simp: valid_parser_def keyed_def desc_only_def)
    then show "valid_parser t (heap t b) \<and> keyed t b" using g by (auto intro: valid_parser_mono)
  qed
  have 2: "\<forall>f<nfuns t. valid_body t (body (funs t f))"
    using assms g by (auto simp: wf_def desc_only_def intro: valid_body_mono)
  have 3: "list_all (canonical t) (cache t)"
    using assms by (auto simp: wf_def list_all_iff canonical_def desc_only_def)
  have 4: "ids_ok t" using assms by (auto simp: wf_def ids_ok_def desc_only_def)
  from 1 2 3 4 show ?thesis by (simp add: wf_def)
qed

lemma wf_generate:
  assumes "wf s" and "a < nparsers s" and "after (generate s a) = Some t"
  shows "wf t \<and> (\<forall>r. generate s a = Return r t \<longrightarrow> valid_ref t r)"
proof (cases "generateMatcher (heap s a)")
  case None
  with assms show ?thesis by (simp add: generate_def)
next
  case (Some g)
  let ?p = "(heap s a)\<lparr>matcher := Some (Matcher g (children (heap s a))), options := None,
      generateMatcher := None\<rparr>"
  have t: "t = s\<lparr>heap := (heap s)(a := ?p)\<rparr>" using assms(3) Some by (simp add: generate_def)
  have "wf (s\<lparr>heap := (heap s)(a := ?p)\<rparr>)"
    using assms(1,2) wf_valid_parser[OF assms(1,2)]
    by (intro wf_node_upd) (auto simp: valid_parser_def)
  then show ?thesis using t assms(2) Some by (auto simp: generate_def)
qed

lemma compute_key_shape:
  assumes "after (compute_key q s a) = Some t"
  shows "t = s \<or> (\<exists>u k. compute_key q s a = Return u t \<and> k \<noteq> [] \<and> t = set_cacheKey s a k)"
  using assms
  by (auto simp: compute_key_def split: sum.splits if_splits)

lemma wf_canonical_lookup:
  "wf s \<Longrightarrow> map_of (cache s) k = Some r \<Longrightarrow> canonical s (k, r)"
  by (auto simp: wf_def list_all_iff dest!: map_of_SomeD)

lemma wf_register_hit:
  assumes "wf s" and "a < nparsers s" and "cacheKey (heap s a) = None" and "k \<noteq> []"
    and "map_of (cache s) k = Some r"
  shows "wf (set_cacheKey s a k) \<and> r < nparsers s"
proof -
  let ?t = "set_cacheKey s a k"
  have g: "grows s ?t" by (simp add: grows_def set_cacheKey_def)
  have c: "canonical s (k, r)" using wf_canonical_lookup[OF assms(1,5)] .
  have 1: "\<forall>b<nparsers ?t. valid_parser ?t (heap ?t b) \<and> keyed ?t b"
  proof (intro allI impI)
    fix b assume b: "b < nparsers ?t"
    then have v: "valid_parser s (heap s b)" "keyed s b" using assms(1) by (auto simp: wf_def set_cacheKey_def)
    have "valid_parser s (heap ?t b)" using v(1) by (auto simp: valid_parser_def set_cacheKey_def)
    moreover have "keyed ?t b" using v(2) assms(4,5) by (auto simp: keyed_def set_cacheKey_def)
    ultimately show "valid_parser ?t (heap ?t b) \<and> keyed ?t b" using g by (auto intro: valid_parser_mono)
  qed
  have 2: "\<forall>f<nfuns ?t. valid_body ?t (body (funs ?t f))"
    using assms(1) g by (auto simp: wf_def set_cacheKey_def intro: valid_body_mono)
  have 3: "list_all (canonical ?t) (cache ?t)"
    using assms(1,3) by (auto simp: wf_def list_all_iff canonical_def set_cacheKey_def)
  have 4: "ids_ok ?t" using assms(1) by (auto simp: wf_def ids_ok_def set_cacheKey_def)
  from 1 2 3 4 c show ?thesis by (simp add: wf_def canonical_def)
qed

lemma wf_register_miss:
  assumes "wf s" and "a < nparsers s" and "cacheKey (heap s a) = None" and "k \<noteq> []"
    and "map_of (cache s) k = None" and "children (heap s a) \<noteq> None"
  shows "wf ((set_cacheKey s a k)\<lparr>cache := (k, a) # cache s\<rparr>)"
proof -
  let ?t = "(set_cacheKey s a k)\<lparr>cache := (k, a) # cache s\<rparr>"
  have g: "grows s ?t" by (simp add: grows_def set_cacheKey_def)
  have 1: "\<forall>b<nparsers ?t. valid_parser ?t (heap ?t b) \<and> keyed ?t b"
  proof (intro allI impI)
    fix b assume b: "b < nparsers ?t"
    then have v: "valid_parser s (heap s b)" "keyed s b" using assms(1) by (auto simp: wf_def set_cacheKey_def)
    have "valid_parser s (heap ?t b)" using v(1) by (auto simp: valid_parser_def set_cacheKey_def)
    moreover have "keyed ?t b" using v(2) assms(4) by (auto simp: keyed_def set_cacheKey_def)
    ultimately show "valid_parser ?t (heap ?t b) \<and> keyed ?t b" using g by (auto intro: valid_parser_mono)
  qed
  have 2: "\<forall>f<nfuns ?t. valid_body ?t (body (funs ?t f))"
    using assms(1) g by (auto simp: wf_def set_cacheKey_def intro: valid_body_mono)
  have 3: "list_all (canonical ?t) (cache ?t)"
    using assms by (auto simp: wf_def list_all_iff canonical_def set_cacheKey_def)
  have 4: "ids_ok ?t" using assms(1) by (auto simp: wf_def ids_ok_def set_cacheKey_def)
  from 1 2 3 4 show ?thesis by (simp add: wf_def)
qed

lemma wf_register_keyed:
  assumes "wf s" and "a < nparsers s" and "cacheKey (heap s a) = None" and "k \<noteq> []"
    and "children (heap s a) \<noteq> None" and "after (register (set_cacheKey s a k) a) = Some t"
  shows "wf t \<and> (\<forall>r. register (set_cacheKey s a k) a = Return r t \<longrightarrow> valid_ref t r)"
proof (cases "map_of (cache s) k")
  case None
  let ?u = "(set_cacheKey s a k)\<lparr>cache := (k, a) # cache s\<rparr>"
  have u: "wf ?u" using wf_register_miss[OF assms(1-4) None assms(5)] .
  have r: "register (set_cacheKey s a k) a = generate ?u a"
    using None assms(4) by (simp add: register_def set_cacheKey_def)
  have "a < nparsers ?u" using assms(2) by (simp add: set_cacheKey_def)
  then show ?thesis using wf_generate[OF u, of a t] assms(6) r by simp
next
  case (Some r)
  have "register (set_cacheKey s a k) a = Return (Some r) (set_cacheKey s a k)"
    using Some assms(4) by (simp add: register_def set_cacheKey_def)
  then show ?thesis using wf_register_hit[OF assms(1-4) Some] assms(6)
    by (auto simp: set_cacheKey_def)
qed

lemma wf_register_unkeyed:
  assumes "wf s" and "a < nparsers s" and "cacheKey (heap s a) = None"
    and "after (register s a) = Some t"
  shows "wf t \<and> (\<forall>r. register s a = Return r t \<longrightarrow> valid_ref t r)"
proof -
  have "register s a = generate s a" using assms(3) by (simp add: register_def)
  then show ?thesis using wf_generate[OF assms(1,2), of t] assms(4) by simp
qed

lemma wf_complete:
  assumes w: "wf s" and a: "a < nparsers s" and c: "children (heap s a) \<noteq> None"
    and k: "cacheKey (heap s a) = None" and r: "after (complete n q s a) = Some t"
  shows "wf t \<and> (\<forall>r. complete n q s a = Return r t \<longrightarrow> valid_ref t r)"
proof (cases "getDescription n s a")
  case (Return d s1)
  then have d: "desc_only s s1" using getDescription_desc_only[of n s a s1] by simp
  have w1: "wf s1" using wf_desc_only[OF d w] .
  have a1: "a < nparsers s1" and c1: "children (heap s1 a) \<noteq> None" and k1: "cacheKey (heap s1 a) = None"
    using d a c k by (auto simp: desc_only_def)
  show ?thesis
  proof (cases "options (heap s1 a)")
    case None
    with r Return w1 show ?thesis by (simp add: complete_def)
  next
    case (Some opts)
    show ?thesis
    proof (cases "cacheable opts")
      case False
      then have "complete n q s a = generate s1 a" using Return Some by (simp add: complete_def)
      then show ?thesis using wf_generate[OF w1 a1, of t] r by simp
    next
      case True
      show ?thesis
      proof (cases "compute_key q s1 a")
        case Abort
        with r Return Some True show ?thesis by (simp add: complete_def)
      next
        case (Throw e s2)
        then have "s2 = s1" using compute_key_shape[of q s1 a s2] by auto
        with r Return Some True Throw w1 show ?thesis by (simp add: complete_def)
      next
        case ck: (Return u s2)
        have cr: "complete n q s a = register s2 a"
          using Return Some True ck by (simp add: complete_def)
        from ck compute_key_shape[of q s1 a s2]
        consider "s2 = s1" | k' where "k' \<noteq> []" "s2 = set_cacheKey s1 a k'" by auto
        then show ?thesis
        proof cases
          case 1
          then show ?thesis using wf_register_unkeyed[OF w1 a1 k1, of t] r cr by simp
        next
          case 2
          then show ?thesis using wf_register_keyed[OF w1 a1 k1 2(1) c1, of t] r cr by simp
        qed
      qed
    qed
  qed
next
  case (Throw e s1)
  then have d: "desc_only s s1" using getDescription_desc_only[of n s a s1] by simp
  have w1: "wf s1" using wf_desc_only[OF d w] .
  with r Throw show ?thesis by (simp add: complete_def)
next
  case Abort
  with r show ?thesis by (simp add: complete_def)
qed

lemma generate_counts: "after (generate s a) = Some t \<Longrightarrow> nparsers t = nparsers s \<and> nfuns t = nfuns s \<and> funs t = funs s"
  by (auto simp: generate_def split: option.splits)

lemma register_counts: "after (register s a) = Some t \<Longrightarrow> nparsers t = nparsers s \<and> nfuns t = nfuns s \<and> funs t = funs s"
  by (auto simp: register_def split: option.splits if_splits dest!: generate_counts)

lemma compute_key_counts: "after (compute_key q s a) = Some t \<Longrightarrow> nparsers t = nparsers s \<and> nfuns t = nfuns s \<and> funs t = funs s"
  using compute_key_shape[of q s a t] by (auto simp: set_cacheKey_def)

lemma complete_counts:
  assumes "after (complete n q s a) = Some t"
  shows "nparsers t = nparsers s \<and> nfuns t = nfuns s \<and> funs t = funs s"
proof (cases "getDescription n s a")
  case (Return d s1)
  then have d: "desc_only s s1" using getDescription_desc_only[of n s a s1] by simp
  then have 1: "nparsers s1 = nparsers s \<and> nfuns s1 = nfuns s \<and> funs s1 = funs s" by (simp add: desc_only_def)
  show ?thesis
  proof (cases "options (heap s1 a)")
    case None
    with assms Return 1 show ?thesis by (simp add: complete_def)
  next
    case (Some opts)
    show ?thesis
    proof (cases "cacheable opts")
      case False
      then have "complete n q s a = generate s1 a" using Return Some by (simp add: complete_def)
      then show ?thesis using generate_counts[of s1 a t] assms 1 by simp
    next
      case True
      show ?thesis
      proof (cases "compute_key q s1 a")
        case Abort
        with assms Return Some True show ?thesis by (simp add: complete_def)
      next
        case (Throw e s2)
        then have "nparsers s2 = nparsers s1 \<and> nfuns s2 = nfuns s1 \<and> funs s2 = funs s1"
          using compute_key_counts[of q s1 a s2] by simp
        with assms Return Some True Throw 1 show ?thesis by (simp add: complete_def)
      next
        case ck: (Return u s2)
        then have 2: "nparsers s2 = nparsers s1 \<and> nfuns s2 = nfuns s1 \<and> funs s2 = funs s1"
          using compute_key_counts[of q s1 a s2] by simp
        have "complete n q s a = register s2 a"
          using Return Some True ck by (simp add: complete_def)
        then show ?thesis using register_counts[of s2 a t] assms 1 2 by simp
      qed
    qed
  qed
next
  case (Throw e s1)
  then have d: "desc_only s s1" using getDescription_desc_only[of n s a s1] by simp
  with assms Throw show ?thesis by (simp add: complete_def desc_only_def)
next
  case Abort
  with assms show ?thesis by (simp add: complete_def)
qed

lemma wf_valid_options:
  "wf s \<Longrightarrow> a < nparsers s \<Longrightarrow> options (heap s a) = Some opts \<Longrightarrow> o_children opts = Some ls
     \<Longrightarrow> list_all (valid_lazy s) ls"
  by (auto simp: wf_def valid_parser_def valid_options_def)

lemma unlazy_children_wfw:
  assumes w: "wfw w" and a: "a < nparsers (fst w)" and r: "after (unlazy_children w a) = Some w'"
  shows "wfw w' \<and> (\<forall>cs. unlazy_children w a = Return cs w' \<longrightarrow> list_all (\<lambda>c. c < nparsers (fst w')) cs)"
proof (cases "options (heap (fst w) a)")
  case None
  with r w show ?thesis by (auto simp: unlazy_children_def)
next
  case (Some opts)
  let ?ls = "case o_children opts of None \<Rightarrow> [] | Some ls \<Rightarrow> ls"
  have v: "list_all (valid_lazy (fst w)) ?ls"
    using wf_valid_options[of "fst w" a opts] w a Some by (auto simp: wfw_def split: option.splits)
  show ?thesis
  proof (cases "map_result unlazy w ?ls")
    case (Return cs w1)
    obtain s1 fc1 where w1: "w1 = (s1, fc1)" by (cases w1)
    have m: "wfw (s1, fc1)" "list_all (\<lambda>c. c < nparsers s1) cs"
      using map_unlazy_wfw[OF w v, of w1] Return w1 by auto
    have "ext (fst w) s1" using map_unlazy_ext[of w ?ls w1] Return w1 by simp
    then have a1: "a < nparsers s1" using a by (auto simp: ext_def)
    have "list_all (valid_ref s1) (map Some cs)" using m(2) by (simp add: list_all_iff)
    then have "wf (set_children s1 a (map Some cs))"
      using wf_set_children m(1) a1 by (simp add: wfw_def)
    then have "wfw (set_children s1 a (map Some cs), fc1)"
      using wfw_grows[OF m(1)] by (simp add: grows_def set_children_def)
    moreover have "w' = (set_children s1 a (map Some cs), fc1)"
      using r Some Return w1 by (simp add: unlazy_children_def)
    moreover have "unlazy_children w a = Return cs (set_children s1 a (map Some cs), fc1)"
      using Some Return w1 by (simp add: unlazy_children_def)
    ultimately show ?thesis using m(2) by (simp add: set_children_def)
  next
    case (Throw e w1)
    then have "wfw w1" using map_unlazy_wfw[OF w v, of w1] by simp
    then show ?thesis using r Some Throw by (auto simp: unlazy_children_def)
  next
    case Abort
    then show ?thesis using r Some by (auto simp: unlazy_children_def)
  qed
qed

lemma wf_keyed_truthy:
  assumes "wf s" and "a < nparsers s" and "truthy (cacheKey (heap s a))"
  shows "\<exists>r. map_of (cache s) (the (cacheKey (heap s a))) = Some r \<and> r < nparsers s"
proof -
  from assms(3) obtain k where k: "cacheKey (heap s a) = Some k" by (cases "cacheKey (heap s a)") auto
  have "keyed s a" using assms(1,2) by (simp add: wf_def)
  then obtain r where r: "map_of (cache s) k = Some r" using k by (auto simp: keyed_def)
  then have "canonical s (k, r)" using wf_canonical_lookup assms(1) by blast
  then show ?thesis using k r by (simp add: canonical_def)
qed

lemma wf_not_truthy:
  assumes "wf s" and "a < nparsers s" and "\<not> truthy (cacheKey (heap s a))"
  shows "cacheKey (heap s a) = None"
proof -
  have "keyed s a" using assms(1,2) by (simp add: wf_def)
  then show ?thesis using assms(3) by (cases "cacheKey (heap s a)") (auto simp: keyed_def)
qed

lemma resolve_wfw:
  "wfw w \<Longrightarrow> a < nparsers (fst w) \<Longrightarrow> after (resolve n q w a) = Some w' \<Longrightarrow>
     wfw w' \<and> (\<forall>r. resolve n q w a = Return r w' \<longrightarrow> valid_ref (fst w') r)"
proof (induction n arbitrary: w a w')
  case 0
  then show ?case by simp
next
  case (Suc n)
  note w = Suc.prems(1) and a = Suc.prems(2) and r = Suc.prems(3)
  have wf: "wf (fst w)" using w by (simp add: wfw_def)
  show ?case
  proof (cases "truthy (cacheKey (heap (fst w) a))")
    case True
    then show ?thesis using wf_keyed_truthy[OF wf a True] r w by auto
  next
    case nk: False
    show ?thesis
    proof (cases "children (heap (fst w) a) \<noteq> None")
      case True
      with nk r w a show ?thesis by auto
    next
      case False
      have k0: "cacheKey (heap (fst w) a) = None" using wf_not_truthy[OF wf a nk] .
      show ?thesis
      proof (cases "unlazy_children w a")
        case Abort
        with r nk False show ?thesis by (simp add: annotate_def)
      next
        case (Throw e w1)
        then have "wfw w1" using unlazy_children_wfw[OF w a, of w1] by simp
        with r nk False Throw show ?thesis by (simp add: annotate_def)
      next
        case (Return cs w1)
        have u: "wfw w1" "list_all (\<lambda>c. c < nparsers (fst w1)) cs"
          using unlazy_children_wfw[OF w a, of w1] Return by auto
        have u1: "children (heap (fst w1) a) \<noteq> None" "cacheKey (heap (fst w1) a) = None"
          "a < nparsers (fst w1)"
          using unlazy_children_Return[OF Return a] k0 by auto
        have loop: "\<And>w2. after (map_result (resolve n q) w1 cs) = Some w2 \<Longrightarrow>
            wfw w2 \<and> grows (fst w1) (fst w2) \<and>
            (\<forall>rs. map_result (resolve n q) w1 cs = Return rs w2 \<longrightarrow> list_all (valid_ref (fst w2)) rs)"
        proof (rule map_result_inv[where I = wfw and G = "\<lambda>w w'. grows (fst w) (fst w')"
              and P = "\<lambda>w c. c < nparsers (fst w)" and Q = "\<lambda>w. valid_ref (fst w)"
              and f = "resolve n q"])
          show "\<And>s. grows (fst s) (fst s)" by (simp add: grows_def)
          show "\<And>s t u. grows (fst s) (fst t) \<Longrightarrow> grows (fst t) (fst u) \<Longrightarrow> grows (fst s) (fst u)"
            by (simp add: grows_def)
          show "\<And>s t x. x < nparsers (fst s) \<Longrightarrow> grows (fst s) (fst t) \<Longrightarrow> x < nparsers (fst t)"
            by (simp add: grows_def)
          show "\<And>s t y. valid_ref (fst s) y \<Longrightarrow> grows (fst s) (fst t) \<Longrightarrow> valid_ref (fst t) y"
            by (rule valid_ref_mono)
          show "\<And>s x s'. wfw s \<Longrightarrow> x < nparsers (fst s) \<Longrightarrow> after (resolve n q s x) = Some s' \<Longrightarrow>
              wfw s' \<and> grows (fst s) (fst s') \<and> (\<forall>y. resolve n q s x = Return y s' \<longrightarrow> valid_ref (fst s') y)"
            using Suc.IH resolve_ext ext_grows by blast
          show "wfw w1" by fact
          show "list_all (\<lambda>c. c < nparsers (fst w1)) cs" by fact
        qed
        show ?thesis
        proof (cases "map_result (resolve n q) w1 cs")
          case Abort
          with r nk False Return show ?thesis by (simp add: annotate_def)
        next
          case (Throw e w2)
          then have "wfw w2" using loop[of w2] by simp
          with r nk False Return Throw show ?thesis by (simp add: annotate_def)
        next
          case m: (Return rs w2)
          obtain s2 fc2 where w2: "w2 = (s2, fc2)" by (cases w2)
          have l: "wfw (s2, fc2)" "list_all (valid_ref s2) rs"
            using loop[of w2] m w2 by auto
          have "ext (fst w1) s2" using map_resolve_ext[of n q w1 cs w2] m w2 by simp
          then have f2: "children (heap s2 a) \<noteq> None" "cacheKey (heap s2 a) = None" "a < nparsers s2"
            using u1 by (auto simp: ext_def)
          let ?s3 = "set_children s2 a rs"
          have w3: "wf ?s3" using wf_set_children l f2(3) by (simp add: wfw_def)
          have f3: "children (heap ?s3 a) \<noteq> None" "cacheKey (heap ?s3 a) = None" "a < nparsers ?s3"
            using f2 by (auto simp: set_children_def)
          have rc: "resolve (Suc n) q w a = with_fc fc2 (complete n q ?s3 a)"
            using nk False Return m w2 by (simp add: annotate_def)
          then obtain t where t: "after (complete n q ?s3 a) = Some t" "w' = (t, fc2)"
            using r by (auto simp: with_fc_after)
          have c: "wf t" "\<forall>r. complete n q ?s3 a = Return r t \<longrightarrow> valid_ref t r"
            using wf_complete[OF w3 f3(3) f3(1) f3(2) t(1)] by auto
          have "grows s2 t" using complete_counts[OF t(1)] by (simp add: grows_def set_children_def)
          then have "wfw (t, fc2)" using wfw_grows[OF l(1) c(1)] by simp
          moreover have "\<forall>r. resolve (Suc n) q w a = Return r w' \<longrightarrow> valid_ref t r"
            using rc c(2) t(2) by (auto simp: with_fc_def split: result.splits)
          ultimately show ?thesis using t(2) by simp
        qed
      qed
    qed
  qed
qed

lemma reachable_wf: "reachable s \<Longrightarrow> wf s"
proof (induction rule: reachable.induct)
  case start
  show ?case by (rule wf_init)
next
  case (construct s opts nm g)
  then show ?case by (simp add: wf_new_parser)
next
  case (closure s b)
  then show ?case by (simp add: wf_new_fun)
next
  case (assign s f b)
  then show ?case by (simp add: wf_rebind)
next
  case (resolved s a n q t fc)
  have "wfw (s, [])" using resolved.IH by (simp add: wfw_def)
  then have "wfw (t, fc)" using resolve_wfw[of "(s, [])" a n q "(t, fc)"] resolved.hyps by simp
  then show ?case by (simp add: wfw_def)
qed

lemma after_state_after:
  "after r \<noteq> None \<Longrightarrow> \<exists>fc. after r = Some (state_after r, fc)"
  by (cases r) (auto simp: state_after_def)

lemma reachable_state_after:
  assumes "reachable s" and "a < nparsers s" and "after (resolve n q (s, []) a) \<noteq> None"
  shows "reachable (state_after (resolve n q (s, []) a))"
proof -
  from after_state_after[OF assms(3)] obtain fc where
    "after (resolve n q (s, []) a) = Some (state_after (resolve n q (s, []) a), fc)" ..
  then show ?thesis using assms(1,2) by (rule reachable.resolved[rotated 2])
qed

lemma reachable_two_leaves: "reachable (two_leaves d e)"
  unfolding two_leaves_def
  by (intro reachable.construct reachable.start) (simp_all add: valid_options_def leaf_def)

lemma resolved_leaves_facts:
  "after (resolve 2 example_quote (two_leaves ''a'' ''a'', []) 0) \<noteq> None"
  "after (resolve 2 example_quote (state_after (resolve 2 example_quote (two_leaves ''a'' ''a'', []) 0), []) 1) \<noteq> None"
  "0 < nparsers (two_leaves ''a'' ''a'')"
  "1 < nparsers (state_after (resolve 2 example_quote (two_leaves ''a'' ''a'', []) 0))"
  "1 < nparsers (resolved_leaves ''a'' ''a'')"
  "cacheKey (heap (resolved_leaves ''a'' ''a'') 1) = Some (''string:'' @ [CHR 0x22] @ ''a'' @ [CHR 0x22])"
  "map_of (cache (resolved_leaves ''a'' ''a'')) (''string:'' @ [CHR 0x22] @ ''a'' @ [CHR 0x22]) = Some 0"
  "returned (resolve 1 example_quote (resolved_leaves ''a'' ''a'', []) 1) = Some (Some 0)"
  by (code_simp)+















lemma reachable_resolved_leaves: "reachable (resolved_leaves ''a'' ''a'')"
  unfolding resolved_leaves_def
  by (intro reachable_state_after reachable_two_leaves resolved_leaves_facts)


lemma returned_state_after:
  "returned x = Some v \<Longrightarrow> \<exists>fc. x = Return v (state_after x, fc)"
  by (cases x) (auto simp: state_after_def)



subsection \<open>The canonicalization cache\<close>

text \<open>
  C9.  In every state that a program reaches, a parser whose \<^verbatim>\<open>cacheKey\<close> is set has an
  entry of \<^verbatim>\<open>__cache\<close> under that key, and the entry is a parser that exists; and whenever
  \<^verbatim>\<open>resolve()\<close> returns, also through the early return at line 96 that reads
  \<^verbatim>\<open>__cache[this.cacheKey]\<close>, it returns a parser that exists, never \<^verbatim>\<open>undefined\<close>.
\<close>

theorem cache_key_registered:
  assumes "reachable s" and "a < nparsers s"
  shows "(\<forall>k. cacheKey (heap s a) = Some k \<longrightarrow> (\<exists>r. map_of (cache s) k = Some r \<and> r < nparsers s))
       \<and> (\<forall>n q r w'. resolve n q (s, []) a = Return r w' \<longrightarrow> (\<exists>b. r = Some b \<and> b < nparsers (fst w')))"
proof -
  have w: "wf s" using assms(1) by (rule reachable_wf)
  have 1: "\<forall>k. cacheKey (heap s a) = Some k \<longrightarrow> (\<exists>r. map_of (cache s) k = Some r \<and> r < nparsers s)"
  proof (intro allI impI)
    fix k assume k: "cacheKey (heap s a) = Some k"
    have "keyed s a" using w assms(2) by (simp add: wf_def)
    then have "truthy (cacheKey (heap s a))" using k by (simp add: keyed_def)
    then show "\<exists>r. map_of (cache s) k = Some r \<and> r < nparsers s"
      using wf_keyed_truthy[OF w assms(2)] k by simp
  qed
  have 2: "\<forall>n q r w'. resolve n q (s, []) a = Return r w' \<longrightarrow> (\<exists>b. r = Some b \<and> b < nparsers (fst w'))"
  proof (intro allI impI)
    fix n q r w' assume r: "resolve n q (s, []) a = Return r w'"
    have "wfw (s, [])" using w by (simp add: wfw_def)
    then have "valid_ref (fst w') r" using resolve_wfw[of "(s, [])" a n q w'] assms(2) r by simp
    then show "\<exists>b. r = Some b \<and> b < nparsers (fst w')" by (cases r) auto
  qed
  from 1 2 show ?thesis by simp
qed

theorem cache_key_registered_witness:
  "reachable (resolved_leaves ''a'' ''a'') \<and> 1 < nparsers (resolved_leaves ''a'' ''a'')
   \<and> cacheKey (heap (resolved_leaves ''a'' ''a'') 1) = Some (''string:'' @ [CHR 0x22] @ ''a'' @ [CHR 0x22])
   \<and> (\<exists>r. map_of (cache (resolved_leaves ''a'' ''a'')) (''string:'' @ [CHR 0x22] @ ''a'' @ [CHR 0x22]) = Some r
          \<and> r < nparsers (resolved_leaves ''a'' ''a''))"
proof -
  have r: "reachable (resolved_leaves ''a'' ''a'')" by (rule reachable_resolved_leaves)
  have l: "1 < nparsers (resolved_leaves ''a'' ''a'')" by (rule resolved_leaves_facts)
  have k: "cacheKey (heap (resolved_leaves ''a'' ''a'') 1) = Some (''string:'' @ [CHR 0x22] @ ''a'' @ [CHR 0x22])"
    by (rule resolved_leaves_facts)
  from cache_key_registered[OF r l] k
  have "\<exists>r. map_of (cache (resolved_leaves ''a'' ''a'')) (''string:'' @ [CHR 0x22] @ ''a'' @ [CHR 0x22]) = Some r
          \<and> r < nparsers (resolved_leaves ''a'' ''a'')" by blast
  with r l k show ?thesis by blast
qed

lemma two_leaves_ids:
  "parser_id (heap (two_leaves ''a'' ''a'') 0) = 1" "parser_id (heap (two_leaves ''a'' ''a'') 1) = 2"
  "(1::nat) < nparsers (two_leaves ''a'' ''a'')"
  by (code_simp)+

lemma two_leaves_resolved_first:
  "returned (resolve 2 example_quote (two_leaves ''a'' ''a'', []) 0) = Some (Some 0)"
  "(0::nat) < nparsers (two_leaves ''a'' ''a'')"
  by (code_simp)+





text \<open>
  C2, as the claim states it, fails in its second half.  The claim: \<^verbatim>\<open>resolve()\<close> on a
  parser that is already resolved (children set, or cacheKey set) returns that same object.
  The second of two identical cacheable parsers has its children and its cache key set
  after its resolution, which returned the first; a further \<^verbatim>\<open>resolve()\<close> on it returns the
  first again (line 96), not the parser itself.
\<close>

theorem discarded_duplicate_counterexample:
  "children (heap (resolved_leaves ''a'' ''a'') 1) = Some []
   \<and> cacheKey (heap (resolved_leaves ''a'' ''a'') 1) = Some (''string:'' @ [CHR 0x22] @ ''a'' @ [CHR 0x22])
   \<and> returned (resolve 1 example_quote (resolved_leaves ''a'' ''a'', []) 1) = Some (Some 0)"
  by code_simp

text \<open>
  C2, amended.  In a state that a program reaches, when \<^verbatim>\<open>resolve()\<close> on a parser returns an
  object \<open>r\<close>, every further \<^verbatim>\<open>resolve()\<close> on the same parser, with a fresh function
  cache, returns the same \<open>r\<close> and leaves the state as it is; and \<^verbatim>\<open>resolve()\<close> on
  \<open>r\<close> returns \<open>r\<close> itself and leaves the state as it is.
\<close>

theorem resolve_again_same_object:
  assumes "reachable s" and "a < nparsers s" and "resolve n q (s, []) a = Return r (t, fc)"
  shows "resolve (Suc m) q (t, []) a = Return r (t, [])
       \<and> (\<exists>b. r = Some b \<and> b < nparsers t \<and> resolve (Suc m) q (t, []) b = Return (Some b) (t, []))"
proof -
  have w: "wfw (s, [])" using reachable_wf[OF assms(1)] by (simp add: wfw_def)
  have wt: "wf t" and v: "valid_ref t r"
    using resolve_wfw[OF w, of a n q "(t, fc)"] assms(2,3) by (auto simp: wfw_def)
  have st: "settled t a r" using resolve_settled[OF assms(3)] assms(2) by simp
  from v obtain b where b: "r = Some b" "b < nparsers t" by (cases r) auto
  have "settled t b (Some b)"
  proof (cases "truthy (cacheKey (heap t a))")
    case True
    then obtain k where k: "cacheKey (heap t a) = Some k" "k \<noteq> []"
      by (cases "cacheKey (heap t a)") auto
    then have "map_of (cache t) k = Some b" using st b by (simp add: settled_def)
    then have "canonical t (k, b)" using wf_canonical_lookup[OF wt] by blast
    then show ?thesis using \<open>map_of (cache t) k = Some b\<close> by (simp add: canonical_def settled_def)
  next
    case False
    then have "r = Some a" using st by (auto simp: settled_def split: option.splits if_splits)
    then show ?thesis using st b by simp
  qed
  then have "resolve (Suc m) q (t, []) b = Return (Some b) (t, [])" by (rule settled_again)
  moreover have "resolve (Suc m) q (t, []) a = Return r (t, [])" using st by (rule settled_again)
  ultimately show ?thesis using b by simp
qed

theorem resolve_again_same_object_witness:
  "reachable (two_leaves ''a'' ''a'') \<and> 0 < nparsers (two_leaves ''a'' ''a'')
   \<and> returned (resolve 2 example_quote (two_leaves ''a'' ''a'', []) 0) = Some (Some 0)
   \<and> returned (resolve (Suc 0) example_quote
        (state_after (resolve 2 example_quote (two_leaves ''a'' ''a'', []) 0), []) 0) = Some (Some 0)"
proof -
  have r: "reachable (two_leaves ''a'' ''a'')" by (rule reachable_two_leaves)
  obtain fc where e: "resolve 2 example_quote (two_leaves ''a'' ''a'', []) 0 =
      Return (Some 0) (state_after (resolve 2 example_quote (two_leaves ''a'' ''a'', []) 0), fc)"
    using returned_state_after[OF two_leaves_resolved_first(1)] by blast
  from resolve_again_same_object[OF r two_leaves_resolved_first(2) e, of 0]
  have "returned (resolve (Suc 0) example_quote
        (state_after (resolve 2 example_quote (two_leaves ''a'' ''a'', []) 0), []) 0) = Some (Some 0)"
    by simp
  with r two_leaves_resolved_first show ?thesis by blast
qed

subsection \<open>Parser ids\<close>

text \<open>
  C10.  In every state that a program reaches, the \<^verbatim>\<open>id\<close>s of the parsers constructed so
  far are positive and strictly increasing in the order of construction, so no two parsers
  share an \<^verbatim>\<open>id\<close>; the constructor gives the new parser the value of the counter
  \<^verbatim>\<open>ParserId\<close> and increments the counter.
\<close>

theorem parser_ids_increasing:
  assumes "reachable s" and "a < b" and "b < nparsers s"
  shows "0 < parser_id (heap s a) \<and> parser_id (heap s a) < parser_id (heap s b)
       \<and> parser_id (heap s b) < ParserId s
       \<and> fst (new_parser s nm opts g) = nparsers s
       \<and> parser_id (heap (snd (new_parser s nm opts g)) (nparsers s)) = ParserId s
       \<and> ParserId (snd (new_parser s nm opts g)) = Suc (ParserId s)"
proof -
  have "ids_ok s" using reachable_wf[OF assms(1)] by (simp add: wf_def)
  then show ?thesis using assms(2,3) by (auto simp: ids_ok_def new_parser_def)
qed

theorem parser_ids_increasing_witness:
  "reachable (two_leaves ''a'' ''a'') \<and> (0::nat) < 1 \<and> 1 < nparsers (two_leaves ''a'' ''a'')
   \<and> parser_id (heap (two_leaves ''a'' ''a'') 0) < parser_id (heap (two_leaves ''a'' ''a'') 1)
   \<and> parser_id (heap (two_leaves ''a'' ''a'') 0) = 1 \<and> parser_id (heap (two_leaves ''a'' ''a'') 1) = 2"
proof -
  have r: "reachable (two_leaves ''a'' ''a'')" by (rule reachable_two_leaves)
  have l: "(0::nat) < 1" by simp
  from parser_ids_increasing[OF r l two_leaves_ids(3)]
  have "parser_id (heap (two_leaves ''a'' ''a'') 0) < parser_id (heap (two_leaves ''a'' ''a'') 1)" by blast
  with r l two_leaves_ids show ?thesis by blast
qed

subsection \<open>Lazy children\<close>




subsection \<open>A lazy child that throws\<close>





text \<open>
  The parser whose lazy child threw keeps nothing.  An enclosing parser, whose own lazy
  children were forced before the failure below it, does keep the \<^verbatim>\<open>children\<close> assigned
  at line 100, as the second and fourth fact of \<open>failing_thunk_facts\<close> show for the
  \<^verbatim>\<open>alt\<close> parser.
\<close>

subsection \<open>Implicit leaves\<close>

text \<open>
  C4.  The claim: during \<^verbatim>\<open>resolve\<close> a lazy child that is a string or \<^verbatim>\<open>RegExp\<close> literal
  becomes a leaf parser, an array becomes a sequence, and the resolution succeeds.  The
  code does not do that: the three conversions of \<^verbatim>\<open>unlazy\<close> are commented out and replaced
  by \<^verbatim>\<open>throw new Error("unimplemented")\<close>.  Each such child makes \<^verbatim>\<open>unlazy\<close> throw, and
  the grammar \<^verbatim>\<open>chain("abc", "123", f)\<close> of the repository's own test fails to resolve
  with the message \<^verbatim>\<open>unimplemented (inside chain)\<close>.
\<close>

theorem implicit_literals_unimplemented:
  "unlazy w (Value (Single (LString x))) = Throw (Error ''unimplemented'') w
   \<and> unlazy w (Value (Single (LRegExp r))) = Throw (Error ''unimplemented'') w
   \<and> unlazy w (Value (Array xs)) = Throw (Error ''unimplemented'') w
   \<and> resolve (Suc n) q (implicit_example, []) 0 =
       Throw (Error ''unimplemented (inside chain)'') (implicit_example, [])"
  by (cases w) (simp add: finish_unlazy_def implicit_example_def new_parser_def
      init_state_def unlazy_children_def annotate_def inside_def)

subsection \<open>map\<close>

text \<open>
  C8.  For every parser \<^verbatim>\<open>p\<close> and transform \<^verbatim>\<open>f\<close>, the matcher of \<^verbatim>\<open>p.map(f)\<close> turns a
  \<^verbatim>\<open>MatchSuccess\<close> of \<^verbatim>\<open>p\<close> with span \<open>s\<close> and value \<open>v\<close> into a \<^verbatim>\<open>MatchSuccess\<close>
  with the same span and the value \<^verbatim>\<open>f(v, s)\<close> when \<^verbatim>\<open>f\<close> is callable, or the constant
  \<^verbatim>\<open>f\<close> when it is not; a \<^verbatim>\<open>MatchFailure\<close> of \<^verbatim>\<open>p\<close> is passed through unchanged.
\<close>

theorem map_transforms_success:
  "map_matcher exec this f stream i = map_continuation f (exec this i)
   \<and> map_continuation (Callable g) (MatchSuccess s v) = MatchSuccess s (g v s)
   \<and> map_continuation (Constant c) (MatchSuccess s v) = MatchSuccess s c
   \<and> map_continuation f (MatchFailure m s) = MatchFailure m s"
  by (simp add: map_continuation_def map_matcher_def schedule_def)




subsection \<open>execute and run\<close>

lemma run_convert_ParseError:
  "(run_convert rv = Inl (ParseError m span)) = (rv = MatchFailure m span)"
  by (cases rv) auto

lemma run_convert_value:
  "(run_convert rv = Inr v) = (\<exists>span. rv = MatchSuccess span v)"
  by (cases rv) auto

text \<open>
  C5.  \<^verbatim>\<open>execute\<close> returns the engine's \<^verbatim>\<open>Match\<close>, success or failure, whenever the
  resolution returns, and throws exactly what the resolution throws: no parse failure is
  thrown.  \<^verbatim>\<open>run\<close> throws a \<^verbatim>\<open>ParseError\<close> with message \<open>m\<close> and span \<open>span\<close> exactly
  when the consuming execution returned the \<^verbatim>\<open>MatchFailure\<close> with that message and span,
  and returns \<open>v\<close> exactly when the consuming execution returned a \<^verbatim>\<open>MatchSuccess\<close> with
  value \<open>v\<close>.
\<close>

theorem run_throws_ParseError_on_failure:
  "(\<exists>w. execute n q eng s a stream = Return rv w) =
     (\<exists>r w. resolve n q (s, []) a = Return r w \<and> rv = eng (fst w) r stream)
   \<and> (execute n q eng s a stream = Throw e w) = (resolve n q (s, []) a = Throw e w)
   \<and> (run n q eng consume s a stream = Some (Inl (ParseError m span))) =
       (\<exists>w. consuming n q eng consume s a stream = Return (MatchFailure m span) w)
   \<and> (run n q eng consume s a stream = Some (Inr v)) =
       (\<exists>span w. consuming n q eng consume s a stream = Return (MatchSuccess span v) w)"
proof -
  have e1: "(\<exists>w. execute n q eng s a stream = Return rv w) =
     (\<exists>r w. resolve n q (s, []) a = Return r w \<and> rv = eng (fst w) r stream)"
    by (cases "resolve n q (s, []) a") (auto simp: execute_def)
  have e2: "(execute n q eng s a stream = Throw e w) = (resolve n q (s, []) a = Throw e w)"
    by (cases "resolve n q (s, []) a") (auto simp: execute_def)
  have r1: "(run n q eng consume s a stream = Some (Inl (ParseError m span))) =
       (\<exists>w. consuming n q eng consume s a stream = Return (MatchFailure m span) w)"
    by (cases "consuming n q eng consume s a stream")
      (auto simp: run_def run_convert_ParseError)
  have r2: "(run n q eng consume s a stream = Some (Inr v)) =
       (\<exists>span w. consuming n q eng consume s a stream = Return (MatchSuccess span v) w)"
    by (cases "consuming n q eng consume s a stream")
      (auto simp: run_def run_convert_value)
  from e1 e2 r1 r2 show ?thesis by blast
qed

end
